theory Spec2Isabelle
  imports Complex_Main
begin

section \<open>Strings and characters\<close>

text \<open>
  A JavaScript string is a sequence of UTF-16 code units. The model uses \<^typ>\<open>string\<close>,
  whose characters are the code units below 256 (ASCII and Latin-1); every string
  constant of \<^verbatim>\<open>worker.js\<close> is ASCII. The two case mappings the program relies on
  are written out for this range: \<^verbatim>\<open>String.prototype.toLowerCase\<close> and the
  canonicalisation a regular expression with the \<^verbatim>\<open>i\<close> flag (and no \<^verbatim>\<open>u\<close> flag)
  applies to pattern and input characters.
\<close>

definition code_unit :: "char \<Rightarrow> nat" where
  "code_unit c = of_char c"

definition is_digit :: "char \<Rightarrow> bool" where
  "is_digit c = (48 \<le> code_unit c \<and> code_unit c \<le> 57)"

definition is_lower :: "char \<Rightarrow> bool" where
  "is_lower c = (97 \<le> code_unit c \<and> code_unit c \<le> 122)"

definition is_upper :: "char \<Rightarrow> bool" where
  "is_upper c = (65 \<le> code_unit c \<and> code_unit c \<le> 90)"

definition is_letter :: "char \<Rightarrow> bool" where
  "is_letter c = (is_lower c \<or> is_upper c)"

text \<open>
  \<^verbatim>\<open>toLowerCase\<close> on one code unit below 256: \<^verbatim>\<open>A-Z\<close> and the Latin-1 capitals
  U+00C0 to U+00DE (the multiplication sign U+00D7 apart) move up by 32.
\<close>

definition lower_unit :: "char \<Rightarrow> char" where
  "lower_unit c =
     (if is_upper c \<or> (192 \<le> code_unit c \<and> code_unit c \<le> 222 \<and> code_unit c \<noteq> 215)
      then char_of (code_unit c + 32) else c)"

definition toLowerCase :: "string \<Rightarrow> string" where
  "toLowerCase s = map lower_unit s"

text \<open>
  Canonicalize of ECMAScript (ignoreCase, not Unicode): the code unit of the upper-case
  form when that form is a single code unit, the character itself otherwise (U+00DF,
  whose upper-case form is two letters). The result can lie outside Latin-1 (U+00B5
  gives U+039C, U+00FF gives U+0178), so it is a number.
\<close>

definition canonicalize :: "char \<Rightarrow> nat" where
  "canonicalize c =
     (if is_lower c \<or> (224 \<le> code_unit c \<and> code_unit c \<le> 254 \<and> code_unit c \<noteq> 247)
      then code_unit c - 32
      else if code_unit c = 181 then 924
      else if code_unit c = 255 then 376
      else code_unit c)"

section \<open>Regular expressions\<close>

text \<open>
  The patterns of \<^verbatim>\<open>worker.js\<close> use character classes, concatenation, alternation
  and the quantifiers \<^verbatim>\<open>+\<close>, \<^verbatim>\<open>{5,}\<close> and \<^verbatim>\<open>{1,3}\<close>; the anchors \<^verbatim>\<open>^\<close> and \<^verbatim>\<open>$\<close>
  occur only at the two ends of a pattern, and no pattern has the \<^verbatim>\<open>g\<close>, \<^verbatim>\<open>y\<close> or
  \<^verbatim>\<open>m\<close> flag. For such patterns \<^verbatim>\<open>RegExp.prototype.test\<close> is stateless and answers
  whether some substring (from the start, to the end, when anchored) belongs to the
  language of the pattern.
\<close>

datatype char_class =
    Chars "(char \<times> char) list"
  | NotChars "(char \<times> char) list"

datatype regex =
    Void
  | Eps
  | Atom char_class
  | Seq regex regex
  | Alt regex regex
  | Star regex

definition in_ranges :: "(char \<times> char) list \<Rightarrow> char \<Rightarrow> bool" where
  "in_ranges rs c =
     list_ex (\<lambda>(lo, hi). code_unit lo \<le> code_unit c \<and> code_unit c \<le> code_unit hi) rs"

definition class_found :: "bool \<Rightarrow> (char \<times> char) list \<Rightarrow> char \<Rightarrow> bool" where
  "class_found ic rs c =
     (if ic then (\<exists>a. in_ranges rs a \<and> canonicalize a = canonicalize c)
      else in_ranges rs c)"

fun class_matches :: "bool \<Rightarrow> char_class \<Rightarrow> char \<Rightarrow> bool" where
  "class_matches ic (Chars rs) c = class_found ic rs c"
| "class_matches ic (NotChars rs) c = (\<not> class_found ic rs c)"

fun nullable :: "regex \<Rightarrow> bool" where
  "nullable Void = False"
| "nullable Eps = True"
| "nullable (Atom a) = False"
| "nullable (Seq r s) = (nullable r \<and> nullable s)"
| "nullable (Alt r s) = (nullable r \<or> nullable s)"
| "nullable (Star r) = True"

fun deriv :: "bool \<Rightarrow> char \<Rightarrow> regex \<Rightarrow> regex" where
  "deriv ic c Void = Void"
| "deriv ic c Eps = Void"
| "deriv ic c (Atom a) = (if class_matches ic a c then Eps else Void)"
| "deriv ic c (Seq r s) =
     (if nullable r then Alt (Seq (deriv ic c r) s) (deriv ic c s)
      else Seq (deriv ic c r) s)"
| "deriv ic c (Alt r s) = Alt (deriv ic c r) (deriv ic c s)"
| "deriv ic c (Star r) = Seq (deriv ic c r) (Star r)"

fun match_whole :: "bool \<Rightarrow> regex \<Rightarrow> string \<Rightarrow> bool" where
  "match_whole ic r [] = nullable r"
| "match_whole ic r (c # cs) = match_whole ic (deriv ic c r) cs"

fun match_prefix :: "bool \<Rightarrow> regex \<Rightarrow> string \<Rightarrow> bool" where
  "match_prefix ic r [] = nullable r"
| "match_prefix ic r (c # cs) = (nullable r \<or> match_prefix ic (deriv ic c r) cs)"

fun match_suffix :: "bool \<Rightarrow> regex \<Rightarrow> string \<Rightarrow> bool" where
  "match_suffix ic r [] = nullable r"
| "match_suffix ic r (c # cs) = (match_whole ic r (c # cs) \<or> match_suffix ic r cs)"

fun search :: "bool \<Rightarrow> regex \<Rightarrow> string \<Rightarrow> bool" where
  "search ic r [] = nullable r"
| "search ic r (c # cs) = (match_prefix ic r (c # cs) \<or> search ic r cs)"

record regexp =
  anchored_start :: bool
  body :: regex
  anchored_end :: bool
  ignore_case :: bool

definition test :: "regexp \<Rightarrow> string \<Rightarrow> bool" where
  "test re s =
     (if anchored_start re
      then (if anchored_end re then match_whole (ignore_case re) (body re) s
            else match_prefix (ignore_case re) (body re) s)
      else (if anchored_end re then match_suffix (ignore_case re) (body re) s
            else search (ignore_case re) (body re) s))"

text \<open>Pattern building blocks.\<close>

definition lit :: "char \<Rightarrow> regex" where
  "lit c = Atom (Chars [(c, c)])"

definition not_lit :: "char \<Rightarrow> regex" where
  "not_lit c = Atom (NotChars [(c, c)])"

definition digit :: regex where
  "digit = Atom (Chars [(CHR ''0'', CHR ''9'')])"

definition plus :: "regex \<Rightarrow> regex" where
  "plus r = Seq r (Star r)"

fun word :: "string \<Rightarrow> regex" where
  "word [] = Eps"
| "word (c # cs) = Seq (lit c) (word cs)"

fun times :: "nat \<Rightarrow> regex \<Rightarrow> regex" where
  "times 0 r = Eps"
| "times (Suc n) r = Seq r (times n r)"

fun up_to :: "nat \<Rightarrow> regex \<Rightarrow> regex" where
  "up_to 0 r = Eps"
| "up_to (Suc n) r = Alt Eps (Seq r (up_to n r))"

definition at_least :: "nat \<Rightarrow> regex \<Rightarrow> regex" where
  "at_least n r = Seq (times n r) (Star r)"

definition between :: "nat \<Rightarrow> nat \<Rightarrow> regex \<Rightarrow> regex" where
  "between m n r = Seq (times m r) (up_to (n - m) r)"

section \<open>JavaScript values, errors and promises\<close>

text \<open>
  The values \<^verbatim>\<open>response.json()\<close> can produce, and \<^verbatim>\<open>undefined\<close>. A number is a
  real; an infinite number behaves in every operation used here like a finite one of
  the same sign. An object is the list of its own properties, looked up by name.
\<close>

datatype jsval =
    Undefined
  | Null
  | Bool bool
  | Num real
  | Str string
  | Arr "jsval list"
  | Obj "(string \<times> jsval) list"

datatype fetch_failure = NetworkFailure | TimedOut

datatype js_error =
    FetchFailed fetch_failure
  | SyntaxError
  | TypeError
  | Error string

fun truthy :: "jsval \<Rightarrow> bool" where
  "truthy Undefined = False"
| "truthy Null = False"
| "truthy (Bool b) = b"
| "truthy (Num x) = (x \<noteq> 0)"
| "truthy (Str s) = (s \<noteq> [])"
| "truthy (Arr xs) = True"
| "truthy (Obj ps) = True"

definition js_or :: "jsval \<Rightarrow> jsval \<Rightarrow> jsval" where
  "js_or a b = (if truthy a then a else b)"

fun strict_eq :: "jsval \<Rightarrow> jsval \<Rightarrow> bool" where
  "strict_eq (Num x) (Num y) = (x = y)"
| "strict_eq a b = False"

text \<open>
  The two property reads of the program, \<^verbatim>\<open>v.Answer\<close> and \<^verbatim>\<open>v.length\<close>. Reading
  a property of \<^verbatim>\<open>null\<close> or \<^verbatim>\<open>undefined\<close> throws a TypeError; a primitive or an
  array has no property \<^verbatim>\<open>Answer\<close>; strings and arrays have a \<^verbatim>\<open>length\<close>.
\<close>

definition own_property :: "(string \<times> jsval) list \<Rightarrow> string \<Rightarrow> jsval" where
  "own_property ps name = (case map_of ps name of None \<Rightarrow> Undefined | Some v \<Rightarrow> v)"

fun prop_Answer :: "jsval \<Rightarrow> js_error + jsval" where
  "prop_Answer Undefined = Inl TypeError"
| "prop_Answer Null = Inl TypeError"
| "prop_Answer (Obj ps) = Inr (own_property ps ''Answer'')"
| "prop_Answer v = Inr Undefined"

fun prop_length :: "jsval \<Rightarrow> js_error + jsval" where
  "prop_length Undefined = Inl TypeError"
| "prop_length Null = Inl TypeError"
| "prop_length (Str s) = Inr (Num (real (length s)))"
| "prop_length (Arr xs) = Inr (Num (real (length xs)))"
| "prop_length (Obj ps) = Inr (own_property ps ''length'')"
| "prop_length v = Inr Undefined"

section \<open>The network and the engine\<close>

text \<open>
  A call of \<^verbatim>\<open>fetch(url, init)\<close> is a request: the URL and the members of
  \<^verbatim>\<open>init\<close>. \<^verbatim>\<open>worker.js\<close> sets \<^verbatim>\<open>headers\<close> only; \<open>signal\<close> is the timeout (in
  milliseconds) of an abort signal, \<open>None\<close> when \<^verbatim>\<open>init\<close> has no such member.
  The promise \<^verbatim>\<open>fetch\<close> returns is rejected (the network failed, or the runtime gave
  up waiting) or fulfilled with a response, whose body is JSON text for some value or
  is not JSON. Every request is assumed to settle.
\<close>

record request =
  url :: string
  headers :: "(string \<times> string) list"
  signal :: "nat option"

datatype response = Response "jsval option"

datatype settled = Rejected fetch_failure | Fulfilled response

text \<open>
  The environment of one verification: what the network answers to each request, and
  the engine's ToNumber on strings, arrays and objects (\<open>None\<close> for NaN), which the
  model does not write out.
\<close>

record env =
  network :: "request \<Rightarrow> settled"
  to_number :: "jsval \<Rightarrow> real option"

fun js_to_number :: "env \<Rightarrow> jsval \<Rightarrow> real option" where
  "js_to_number e Undefined = None"
| "js_to_number e Null = Some 0"
| "js_to_number e (Bool b) = Some (if b then 1 else 0)"
| "js_to_number e (Num x) = Some x"
| "js_to_number e v = to_number e v"

definition js_gt :: "env \<Rightarrow> jsval \<Rightarrow> real \<Rightarrow> bool" where
  "js_gt e v y = (case js_to_number e v of None \<Rightarrow> False | Some x \<Rightarrow> y < x)"

text \<open>
  An asynchronous computation: it is given the requests issued so far, and it returns
  how its promise settles (\<open>Inl\<close>: rejected with an error) and the requests issued by
  then, in order.
\<close>

type_synonym 'a async = "request list \<Rightarrow> (js_error + 'a) \<times> request list"

definition resolve :: "'a \<Rightarrow> 'a async" where
  "resolve x sent = (Inr x, sent)"

definition reject :: "js_error \<Rightarrow> 'a async" where
  "reject e sent = (Inl e, sent)"

definition of_result :: "js_error + 'a \<Rightarrow> 'a async" where
  "of_result r sent = (r, sent)"

definition await :: "'a async \<Rightarrow> ('a \<Rightarrow> 'b async) \<Rightarrow> 'b async" where
  "await m k sent =
     (case m sent of (Inl e, sent') \<Rightarrow> (Inl e, sent') | (Inr x, sent') \<Rightarrow> k x sent')"

definition try_catch :: "'a async \<Rightarrow> (js_error \<Rightarrow> 'a async) \<Rightarrow> 'a async" where
  "try_catch m h sent =
     (case m sent of (Inl e, sent') \<Rightarrow> h e sent' | (Inr x, sent') \<Rightarrow> (Inr x, sent'))"

definition fetch :: "env \<Rightarrow> request \<Rightarrow> response async" where
  "fetch e req sent =
     (case network e req of
        Rejected f \<Rightarrow> (Inl (FetchFailed f), sent @ [req])
      | Fulfilled r \<Rightarrow> (Inr r, sent @ [req]))"

fun json :: "response \<Rightarrow> jsval async" where
  "json (Response None) = reject SyntaxError"
| "json (Response (Some v)) = resolve v"

section \<open>worker.js\<close>

definition EMAIL_REGEX :: regexp where
  "EMAIL_REGEX =
     \<lparr>anchored_start = True,
      body = Seq (plus (not_lit CHR ''@''))
              (Seq (lit CHR ''@'')
                (Seq (plus (not_lit CHR ''@''))
                  (Seq (lit CHR ''.'') (plus (not_lit CHR ''@''))))),
      anchored_end = True,
      ignore_case = False\<rparr>"

definition DISPOSABLE_DOMAINS :: "string set" where
  "DISPOSABLE_DOMAINS =
     {''mailinator.com'', ''10minutemail.com'', ''guerrillamail.com'',
      ''tempmail.org'', ''throwaway.email'', ''maildrop.cc''}"

definition ROLE_BASED_PREFIXES :: "string set" where
  "ROLE_BASED_PREFIXES =
     {''info'', ''support'', ''admin'', ''sales'', ''contact'', ''noreply'', ''no-reply''}"

record verification_result =
  status :: string
  reason :: string

record domain_info =
  suspicious :: bool

text \<open>\<^verbatim>\<open>String.prototype.split\<close> with a one-character separator.\<close>

fun split_on :: "char \<Rightarrow> string \<Rightarrow> string list" where
  "split_on sep [] = [[]]"
| "split_on sep (c # cs) =
     (if c = sep then [] # split_on sep cs
      else (case split_on sep cs of
              [] \<Rightarrow> [[c]]
            | part # parts \<Rightarrow> (c # part) # parts))"

text \<open>An array element by index; \<open>None\<close> is \<^verbatim>\<open>undefined\<close>.\<close>

fun nth_opt :: "'a list \<Rightarrow> nat \<Rightarrow> 'a option" where
  "nth_opt [] n = None"
| "nth_opt (x # xs) 0 = Some x"
| "nth_opt (x # xs) (Suc n) = nth_opt xs n"

definition dns_request :: "string \<Rightarrow> string \<Rightarrow> request" where
  "dns_request domain type =
     \<lparr>url = ''https://cloudflare-dns.com/dns-query?name='' @ domain @ ''&type='' @ type,
      headers = [(''Accept'', ''application/dns-json'')],
      signal = None\<rparr>"

definition getMXRecords :: "env \<Rightarrow> string \<Rightarrow> jsval async" where
  "getMXRecords e domain =
     try_catch
       (await (fetch e (dns_request domain ''MX'')) (\<lambda>response.
        await (json response) (\<lambda>data.
        await (of_result (prop_Answer data)) (\<lambda>answer.
        resolve (js_or answer (Arr []))))))
       (\<lambda>error. reject (Error ''DNS lookup failed''))"

definition hasARecords :: "env \<Rightarrow> string \<Rightarrow> jsval async" where
  "hasARecords e domain =
     try_catch
       (await (fetch e (dns_request domain ''A'')) (\<lambda>response.
        await (json response) (\<lambda>data.
        await (of_result (prop_Answer data)) (\<lambda>answer.
        if truthy answer
        then await (of_result (prop_length answer)) (\<lambda>len. resolve (Bool (js_gt e len 0)))
        else resolve answer))))
       (\<lambda>error. resolve (Bool False))"

definition suspiciousPatterns :: "regexp list" where
  "suspiciousPatterns =
     [\<lparr>anchored_start = False, body = at_least 5 digit,
       anchored_end = False, ignore_case = False\<rparr>,
      \<lparr>anchored_start = False,
       body = Alt (word ''temp'') (Alt (word ''test'') (Alt (word ''fake'') (word ''spam''))),
       anchored_end = False, ignore_case = True\<rparr>,
      \<lparr>anchored_start = True,
       body = Seq (between 1 3 (Atom (Chars [(CHR ''a'', CHR ''z'')])))
               (Seq (plus digit) (lit CHR ''.'')),
       anchored_end = False, ignore_case = True\<rparr>]"

definition getDomainInfo :: "string \<Rightarrow> domain_info async" where
  "getDomainInfo domain =
     resolve \<lparr>suspicious = list_ex (\<lambda>pattern. test pattern domain) suspiciousPatterns\<rparr>"

text \<open>The body of the \<^verbatim>\<open>try\<close> block of \<^verbatim>\<open>verifyEmail\<close>.\<close>

definition dns_checks :: "env \<Rightarrow> string \<Rightarrow> verification_result async" where
  "dns_checks e domain =
     await (getMXRecords e domain) (\<lambda>mxRecords.
     await (if truthy mxRecords
            then await (of_result (prop_length mxRecords)) (\<lambda>len.
                 resolve (strict_eq len (Num 0)))
            else resolve True) (\<lambda>no_records.
     if no_records then resolve \<lparr>status = ''invalid'', reason = ''no_mx''\<rparr>
     else
       await (hasARecords e domain) (\<lambda>hasARecord.
       await (getDomainInfo domain) (\<lambda>domainInfo.
       if suspicious domainInfo
       then resolve \<lparr>status = ''risky'', reason = ''suspicious_domain''\<rparr>
       else resolve \<lparr>status = ''valid'', reason = ''dns_verified''\<rparr>))))"

definition verifyEmail :: "env \<Rightarrow> string \<Rightarrow> verification_result async" where
  "verifyEmail e email =
     (if \<not> test EMAIL_REGEX email
      then resolve \<lparr>status = ''invalid'', reason = ''bad_syntax''\<rparr>
      else
        (case (nth_opt (split_on CHR ''@'' email) 0, nth_opt (split_on CHR ''@'' email) 1) of
           (Some local, Some domain) \<Rightarrow>
             if local = [] \<or> domain = []
             then resolve \<lparr>status = ''invalid'', reason = ''bad_syntax''\<rparr>
             else if toLowerCase domain \<in> DISPOSABLE_DOMAINS
             then resolve \<lparr>status = ''invalid'', reason = ''disposable_domain''\<rparr>
             else if toLowerCase local \<in> ROLE_BASED_PREFIXES
             then resolve \<lparr>status = ''invalid'', reason = ''role_based''\<rparr>
             else
               try_catch (dns_checks e domain)
                 (\<lambda>error. resolve \<lparr>status = ''risky'', reason = ''dns_timeout''\<rparr>)
         | _ \<Rightarrow> resolve \<lparr>status = ''invalid'', reason = ''bad_syntax''\<rparr>))"

section \<open>The specification's words\<close>

text \<open>
  The address pattern of the specification: exactly one \<^verbatim>\<open>@\<close>, non-empty text before
  and after it, and in the part after it a dot with non-empty text on both sides.
\<close>

definition local_part :: "string \<Rightarrow> string" where
  "local_part email = takeWhile (\<lambda>c. c \<noteq> CHR ''@'') email"

definition domain_part :: "string \<Rightarrow> string" where
  "domain_part email = drop 1 (dropWhile (\<lambda>c. c \<noteq> CHR ''@'') email)"

definition dot_inside :: "string \<Rightarrow> bool" where
  "dot_inside d = (CHR ''.'' \<in> set (butlast (tl d)))"

definition spec_syntax_ok :: "string \<Rightarrow> bool" where
  "spec_syntax_ok email =
     (count_list email CHR ''@'' = 1 \<and> local_part email \<noteq> [] \<and> domain_part email \<noteq> [] \<and>
      dot_inside (domain_part email))"

text \<open>The same pattern with its three non-empty texts named.\<close>

definition email_shape :: "string \<Rightarrow> string \<Rightarrow> string \<Rightarrow> string \<Rightarrow> bool" where
  "email_shape email l a b \<longleftrightarrow>
     email = l @ CHR ''@'' # a @ CHR ''.'' # b \<and> l \<noteq> [] \<and> a \<noteq> [] \<and> b \<noteq> [] \<and>
     CHR ''@'' \<notin> set l \<and> CHR ''@'' \<notin> set a \<and> CHR ''@'' \<notin> set b"

text \<open>The three predicates of the suspicion heuristic, as the specification words them.\<close>

fun contains_digit_run :: "nat \<Rightarrow> string \<Rightarrow> bool" where
  "contains_digit_run n [] = (n = 0)"
| "contains_digit_run n (c # cs) =
     (n \<le> length (takeWhile is_digit (c # cs)) \<or> contains_digit_run n cs)"

fun contains :: "string \<Rightarrow> string \<Rightarrow> bool" where
  "contains w [] = (w = [])"
| "contains w (c # cs) = (take (length w) (c # cs) = w \<or> contains w cs)"

definition contains_ignoring_case :: "string \<Rightarrow> string \<Rightarrow> bool" where
  "contains_ignoring_case w s = contains (toLowerCase w) (toLowerCase s)"

definition spec_keyword :: "string \<Rightarrow> bool" where
  "spec_keyword d =
     list_ex (\<lambda>w. contains_ignoring_case w d) [''temp'', ''test'', ''fake'', ''spam'']"

definition first_label :: "string \<Rightarrow> string" where
  "first_label d = takeWhile (\<lambda>c. c \<noteq> CHR ''.'') d"

text \<open>
  A label made of one to three letters followed by one or more digits, for a given
  notion of letter.
\<close>

definition letters_then_digits :: "(char \<Rightarrow> bool) \<Rightarrow> string \<Rightarrow> bool" where
  "letters_then_digits letter l =
     (1 \<le> length (takeWhile letter l) \<and> length (takeWhile letter l) \<le> 3 \<and>
      dropWhile letter l \<noteq> [] \<and> list_all is_digit (dropWhile letter l))"

definition short_label :: "(char \<Rightarrow> bool) \<Rightarrow> string \<Rightarrow> bool" where
  "short_label letter d = (CHR ''.'' \<in> set d \<and> letters_then_digits letter (first_label d))"

definition spec_suspicious :: "string \<Rightarrow> bool" where
  "spec_suspicious d = (contains_digit_run 5 d \<or> spec_keyword d \<or> short_label is_lower d)"

text \<open>
  The ordered decision sequence: a list of rules, each a condition and its verdict; the
  first rule whose condition holds gives the result.
\<close>

definition first_match ::
  "(bool \<times> verification_result) list \<Rightarrow> verification_result \<Rightarrow> verification_result" where
  "first_match rules otherwise =
     (case find fst rules of None \<Rightarrow> otherwise | Some (c, v) \<Rightarrow> v)"

definition decision_sequence ::
  "bool \<Rightarrow> bool \<Rightarrow> bool \<Rightarrow> bool \<Rightarrow> bool \<Rightarrow> bool \<Rightarrow> verification_result" where
  "decision_sequence syntax_fails disposable role_based mx_fails mx_empty suspicious_domain =
     first_match
       [(syntax_fails, \<lparr>status = ''invalid'', reason = ''bad_syntax''\<rparr>),
        (disposable, \<lparr>status = ''invalid'', reason = ''disposable_domain''\<rparr>),
        (role_based, \<lparr>status = ''invalid'', reason = ''role_based''\<rparr>),
        (mx_fails, \<lparr>status = ''risky'', reason = ''dns_timeout''\<rparr>),
        (mx_empty, \<lparr>status = ''invalid'', reason = ''no_mx''\<rparr>),
        (suspicious_domain, \<lparr>status = ''risky'', reason = ''suspicious_domain''\<rparr>)]
       \<lparr>status = ''valid'', reason = ''dns_verified''\<rparr>"

text \<open>
  What the rules are about. The MX lookup of a domain fails when \<^verbatim>\<open>getMXRecords\<close>
  rejects; its answer is empty when the value it resolves to passes the program's test
  \<^verbatim>\<open>!mxRecords || mxRecords.length === 0\<close> (for an array: it has no element).
\<close>

definition mx_lookup :: "env \<Rightarrow> string \<Rightarrow> js_error + jsval" where
  "mx_lookup e domain = fst (getMXRecords e domain [])"

definition no_records :: "jsval \<Rightarrow> bool" where
  "no_records v = (if truthy v then prop_length v = Inr (Num 0) else True)"

definition mx_fails :: "env \<Rightarrow> string \<Rightarrow> bool" where
  "mx_fails e domain = (case mx_lookup e domain of Inl err \<Rightarrow> True | Inr v \<Rightarrow> False)"

definition mx_empty :: "env \<Rightarrow> string \<Rightarrow> bool" where
  "mx_empty e domain = (case mx_lookup e domain of Inl err \<Rightarrow> False | Inr v \<Rightarrow> no_records v)"

definition is_suspicious :: "string \<Rightarrow> bool" where
  "is_suspicious domain = list_ex (\<lambda>pattern. test pattern domain) suspiciousPatterns"

text \<open>What \<^verbatim>\<open>hasARecords\<close> resolves to, read off the network's answer.\<close>

definition a_lookup :: "env \<Rightarrow> string \<Rightarrow> jsval" where
  "a_lookup e domain =
     (case network e (dns_request domain ''A'') of
        Rejected f \<Rightarrow> Bool False
      | Fulfilled (Response None) \<Rightarrow> Bool False
      | Fulfilled (Response (Some data)) \<Rightarrow>
          (case prop_Answer data of
             Inl err \<Rightarrow> Bool False
           | Inr answer \<Rightarrow>
               if truthy answer
               then (case prop_length answer of
                       Inl err \<Rightarrow> Bool False
                     | Inr len \<Rightarrow> Bool (js_gt e len 0))
               else answer))"

text \<open>The seven pairs of the specification's table of results.\<close>

definition result_table :: "(string \<times> string) list" where
  "result_table =
     [(''invalid'', ''bad_syntax''), (''invalid'', ''disposable_domain''),
      (''invalid'', ''role_based''), (''invalid'', ''no_mx''),
      (''risky'', ''suspicious_domain''), (''risky'', ''dns_timeout''),
      (''valid'', ''dns_verified'')]"

text \<open>Sample environments: every request gets the same answer.\<close>

definition answering :: "jsval \<Rightarrow> env" where
  "answering data =
     \<lparr>network = (\<lambda>q. Fulfilled (Response (Some data))), to_number = (\<lambda>v. None)\<rparr>"

definition failing :: "fetch_failure \<Rightarrow> env" where
  "failing f = \<lparr>network = (\<lambda>q. Rejected f), to_number = (\<lambda>v. None)\<rparr>"

definition mx_record :: jsval where
  "mx_record =
     Obj [(''name'', Str ''example.com''), (''type'', Num 15), (''TTL'', Num 300),
          (''data'', Str ''10 mail.example.com.'')]"

text \<open>An environment whose A lookups time out while every other request is answered.\<close>

definition a_times_out :: "jsval \<Rightarrow> env" where
  "a_times_out data =
     \<lparr>network = (\<lambda>q. if url q = url (dns_request ''example.com'' ''A'')
                       then Rejected TimedOut else Fulfilled (Response (Some data))),
      to_number = (\<lambda>v. None)\<rparr>"

subsection \<open>The language of a pattern\<close>

definition conc :: "string set \<Rightarrow> string set \<Rightarrow> string set" where
  "conc A B = {u @ v | u v. u \<in> A \<and> v \<in> B}"

inductive_set star :: "string set \<Rightarrow> string set" for A :: "string set" where
  star_empty: "[] \<in> star A"
| star_step: "u \<in> A \<Longrightarrow> v \<in> star A \<Longrightarrow> u @ v \<in> star A"

fun lang :: "bool \<Rightarrow> regex \<Rightarrow> string set" where
  "lang ic Void = {}"
| "lang ic Eps = {[]}"
| "lang ic (Atom a) = {[c] | c. class_matches ic a c}"
| "lang ic (Seq r s) = conc (lang ic r) (lang ic s)"
| "lang ic (Alt r s) = lang ic r \<union> lang ic s"
| "lang ic (Star r) = star (lang ic r)"

lemma nullable_lang: "nullable r \<longleftrightarrow> [] \<in> lang ic r"
  by (induction r) (auto simp: conc_def intro: star.star_empty)

lemma star_Cons:
  "c # w \<in> star A \<longleftrightarrow> (\<exists>u v. w = u @ v \<and> c # u \<in> A \<and> v \<in> star A)"
proof
  assume "c # w \<in> star A"
  then show "\<exists>u v. w = u @ v \<and> c # u \<in> A \<and> v \<in> star A"
  proof (induction "c # w" arbitrary: w rule: star.induct)
    case (star_step u v)
    show ?case
    proof (cases u)
      case Nil
      with star_step show ?thesis by simp
    next
      case (Cons a u')
      with star_step.hyps(1, 2, 4) show ?thesis by auto
    qed
  qed
next
  assume "\<exists>u v. w = u @ v \<and> c # u \<in> A \<and> v \<in> star A"
  then obtain u v where "w = u @ v" "c # u \<in> A" "v \<in> star A" by blast
  then show "c # w \<in> star A"
    using star.star_step [of "c # u" A v] by simp
qed

lemma conc_Cons:
  "c # w \<in> conc A B \<longleftrightarrow>
     (\<exists>u v. w = u @ v \<and> c # u \<in> A \<and> v \<in> B) \<or> ([] \<in> A \<and> c # w \<in> B)"
  by (auto simp: conc_def Cons_eq_append_conv)

lemma deriv_lang: "w \<in> lang ic (deriv ic c r) \<longleftrightarrow> c # w \<in> lang ic r"
proof (induction r arbitrary: w)
  case (Seq r s)
  then show ?case
    by (auto simp: conc_Cons nullable_lang [of _ ic]) (auto simp: conc_def)
next
  case (Star r)
  then show ?case
    by (auto simp: star_Cons conc_def)
qed auto

lemma match_whole_lang: "match_whole ic r s \<longleftrightarrow> s \<in> lang ic r"
  by (induction s arbitrary: r) (simp_all add: nullable_lang [of _ ic] deriv_lang)

lemma match_prefix_lang:
  "match_prefix ic r s \<longleftrightarrow> (\<exists>u v. s = u @ v \<and> u \<in> lang ic r)"
proof (induction s arbitrary: r)
  case Nil
  show ?case by (simp add: nullable_lang [of _ ic])
next
  case (Cons c cs)
  show ?case
  proof
    assume "match_prefix ic r (c # cs)"
    then have "nullable r \<or> match_prefix ic (deriv ic c r) cs" by simp
    then consider "[] \<in> lang ic r" | "match_prefix ic (deriv ic c r) cs"
      using nullable_lang [of r ic] by blast
    then show "\<exists>u v. c # cs = u @ v \<and> u \<in> lang ic r"
    proof cases
      case 1
      then have "c # cs = [] @ (c # cs) \<and> [] \<in> lang ic r" by simp
      then show ?thesis by blast
    next
      case 2
      then have "\<exists>u v. cs = u @ v \<and> u \<in> lang ic (deriv ic c r)"
        by (simp only: Cons.IH)
      then obtain u v where "cs = u @ v" "u \<in> lang ic (deriv ic c r)" by blast
      then have "c # cs = (c # u) @ v \<and> c # u \<in> lang ic r"
        by (simp add: deriv_lang)
      then show ?thesis by blast
    qed
  next
    assume "\<exists>u v. c # cs = u @ v \<and> u \<in> lang ic r"
    then obtain u v where uv: "c # cs = u @ v" "u \<in> lang ic r" by blast
    show "match_prefix ic r (c # cs)"
    proof (cases u)
      case Nil
      with uv(2) have "nullable r" by (simp add: nullable_lang [of _ ic])
      then show ?thesis by simp
    next
      case (Cons a u')
      with uv have "cs = u' @ v \<and> u' \<in> lang ic (deriv ic c r)"
        by (simp add: deriv_lang)
      then have "\<exists>u v. cs = u @ v \<and> u \<in> lang ic (deriv ic c r)" by blast
      then have "match_prefix ic (deriv ic c r) cs" by (simp only: Cons.IH)
      then show ?thesis by simp
    qed
  qed
qed

lemma search_lang:
  "search ic r s \<longleftrightarrow> (\<exists>p u v. s = p @ u @ v \<and> u \<in> lang ic r)"
proof (induction s)
  case Nil
  show ?case by (simp add: nullable_lang [of _ ic])
next
  case (Cons c cs)
  show ?case
  proof
    assume "search ic r (c # cs)"
    then consider "match_prefix ic r (c # cs)" | "search ic r cs" by auto
    then show "\<exists>p u v. c # cs = p @ u @ v \<and> u \<in> lang ic r"
    proof cases
      case 1
      then obtain u v where "c # cs = u @ v" "u \<in> lang ic r"
        unfolding match_prefix_lang by blast
      then have "c # cs = [] @ u @ v \<and> u \<in> lang ic r" by simp
      then show ?thesis by blast
    next
      case 2
      then have "\<exists>p u v. cs = p @ u @ v \<and> u \<in> lang ic r"
        by (simp only: Cons.IH)
      then obtain p u v where "cs = p @ u @ v" "u \<in> lang ic r" by blast
      then have "c # cs = (c # p) @ u @ v \<and> u \<in> lang ic r" by simp
      then show ?thesis by blast
    qed
  next
    assume "\<exists>p u v. c # cs = p @ u @ v \<and> u \<in> lang ic r"
    then obtain p u v where puv: "c # cs = p @ u @ v" "u \<in> lang ic r" by blast
    show "search ic r (c # cs)"
    proof (cases p)
      case Nil
      with puv have "c # cs = u @ v \<and> u \<in> lang ic r" by simp
      then have "match_prefix ic r (c # cs)"
        unfolding match_prefix_lang by blast
      then show ?thesis by simp
    next
      case (Cons a p')
      with puv have "cs = p' @ u @ v \<and> u \<in> lang ic r" by simp
      then have "\<exists>p u v. cs = p @ u @ v \<and> u \<in> lang ic r" by blast
      then have "search ic r cs" by (simp only: Cons.IH)
      then show ?thesis by simp
    qed
  qed
qed

subsection \<open>Characters under the case mappings\<close>

lemma code_unit_eq_iff: "code_unit a = code_unit b \<longleftrightarrow> a = b"
  by (simp add: code_unit_def)

lemma code_unit_less_256: "code_unit c < 256"
  by (simp add: code_unit_def)

lemma code_unit_char_of: "n < 256 \<Longrightarrow> code_unit (char_of n) = n"
  by (simp add: code_unit_def)

lemma in_ranges_single: "in_ranges [(c, c)] x \<longleftrightarrow> x = c"
  by (auto simp: in_ranges_def code_unit_def)

lemma in_ranges_digit: "in_ranges [(CHR ''0'', CHR ''9'')] x \<longleftrightarrow> is_digit x"
  by (simp add: in_ranges_def is_digit_def code_unit_def)

lemma in_ranges_lower: "in_ranges [(CHR ''a'', CHR ''z'')] x \<longleftrightarrow> is_lower x"
  by (simp add: in_ranges_def is_lower_def code_unit_def)

lemma canonicalize_digit: "is_digit a \<Longrightarrow> canonicalize a = code_unit a"
  by (simp add: canonicalize_def is_digit_def is_lower_def)

lemma canonicalize_is_digit:
  "48 \<le> canonicalize x \<Longrightarrow> canonicalize x \<le> 57 \<Longrightarrow> is_digit x"
  by (auto simp: canonicalize_def is_digit_def is_lower_def split: if_splits)

lemma class_found_digit:
  "class_found ic [(CHR ''0'', CHR ''9'')] x \<longleftrightarrow> is_digit x"
proof (cases ic)
  case False
  then show ?thesis by (simp add: class_found_def in_ranges_digit)
next
  case True
  have "(\<exists>a. is_digit a \<and> canonicalize a = canonicalize x) \<longleftrightarrow> is_digit x"
  proof
    assume "\<exists>a. is_digit a \<and> canonicalize a = canonicalize x"
    then obtain a where a: "is_digit a" "canonicalize a = canonicalize x" by blast
    then have "48 \<le> canonicalize x \<and> canonicalize x \<le> 57"
      using canonicalize_digit [of a] by (simp add: is_digit_def)
    then show "is_digit x" by (simp add: canonicalize_is_digit)
  next
    assume "is_digit x"
    then show "\<exists>a. is_digit a \<and> canonicalize a = canonicalize x" by blast
  qed
  with True show ?thesis by (simp add: class_found_def in_ranges_digit)
qed

lemma canonicalize_lower: "is_lower a \<Longrightarrow> canonicalize a = code_unit a - 32"
  by (simp add: canonicalize_def)

lemma canonicalize_upper: "is_upper a \<Longrightarrow> canonicalize a = code_unit a"
  by (simp add: canonicalize_def is_upper_def is_lower_def)

lemma canonicalize_is_letter:
  "65 \<le> canonicalize x \<Longrightarrow> canonicalize x \<le> 90 \<Longrightarrow> is_letter x"
  by (auto simp: canonicalize_def is_letter_def is_upper_def is_lower_def split: if_splits)

lemma lower_of_upper:
  assumes "is_upper x"
  shows "is_lower (char_of (code_unit x + 32))"
    and "code_unit (char_of (code_unit x + 32)) = code_unit x + 32"
  using assms by (simp_all add: is_upper_def is_lower_def code_unit_char_of)

lemma class_found_letter:
  "class_found True [(CHR ''a'', CHR ''z'')] x \<longleftrightarrow> is_letter x"
proof -
  have "(\<exists>a. is_lower a \<and> canonicalize a = canonicalize x) \<longleftrightarrow> is_letter x"
  proof
    assume "\<exists>a. is_lower a \<and> canonicalize a = canonicalize x"
    then obtain a where a: "is_lower a" "canonicalize a = canonicalize x" by blast
    then have "65 \<le> canonicalize x \<and> canonicalize x \<le> 90"
      using canonicalize_lower [of a] unfolding is_lower_def by linarith
    then show "is_letter x" by (simp add: canonicalize_is_letter)
  next
    assume "is_letter x"
    then consider "is_lower x" | "is_upper x" by (auto simp: is_letter_def)
    then show "\<exists>a. is_lower a \<and> canonicalize a = canonicalize x"
    proof cases
      case 1
      then show ?thesis by blast
    next
      case 2
      let ?a = "char_of (code_unit x + 32) :: char"
      have "is_lower ?a" "canonicalize ?a = canonicalize x"
        using 2 lower_of_upper [of x]
        by (simp_all add: canonicalize_lower canonicalize_upper)
      then show ?thesis by blast
    qed
  qed
  then show ?thesis by (simp add: class_found_def in_ranges_lower)
qed

lemma lower_unit_lower: "is_lower a \<Longrightarrow> lower_unit a = a"
  by (simp add: lower_unit_def is_lower_def is_upper_def)

lemma canonicalize_eq_lower:
  assumes "is_lower a"
  shows "canonicalize a = canonicalize x \<longleftrightarrow> lower_unit x = a"
proof
  assume eq: "canonicalize a = canonicalize x"
  with assms have "65 \<le> canonicalize x \<and> canonicalize x \<le> 90"
    using canonicalize_lower [of a] unfolding is_lower_def by linarith
  then have "is_letter x" by (simp add: canonicalize_is_letter)
  then consider "is_lower x" | "is_upper x" by (auto simp: is_letter_def)
  then show "lower_unit x = a"
  proof cases
    case 1
    with eq assms have "code_unit x = code_unit a"
      using canonicalize_lower [of a] canonicalize_lower [of x]
      unfolding is_lower_def by linarith
    with 1 show ?thesis by (simp add: code_unit_eq_iff lower_unit_lower)
  next
    case 2
    with eq assms have "code_unit x + 32 = code_unit a"
      using canonicalize_lower [of a] canonicalize_upper [of x]
      unfolding is_lower_def by linarith
    with 2 show ?thesis by (simp add: lower_unit_def code_unit_def)
  qed
next
  assume low: "lower_unit x = a"
  show "canonicalize a = canonicalize x"
  proof (cases "is_upper x")
    case True
    with low have "a = char_of (code_unit x + 32)" by (simp add: lower_unit_def)
    with True show ?thesis
      using lower_of_upper [of x] by (simp add: canonicalize_lower canonicalize_upper)
  next
    case False
    show ?thesis
    proof (cases "192 \<le> code_unit x \<and> code_unit x \<le> 222 \<and> code_unit x \<noteq> 215")
      case True
      with False low have "a = char_of (code_unit x + 32)" by (simp add: lower_unit_def)
      with True have "code_unit a = code_unit x + 32" by (simp add: code_unit_char_of)
      with True assms show ?thesis by (simp add: is_lower_def)
    next
      case no: False
      with False low show ?thesis by (simp add: lower_unit_def)
    qed
  qed
qed

lemma canonicalize_dot: "canonicalize CHR ''.'' = canonicalize x \<longleftrightarrow> x = CHR ''.''"
proof
  assume "canonicalize CHR ''.'' = canonicalize x"
  then have "canonicalize x = 46"
    by (simp add: canonicalize_def is_lower_def code_unit_def)
  then have "code_unit x = code_unit CHR ''.''"
    by (auto simp: canonicalize_def is_lower_def code_unit_def split: if_splits)
  then show "x = CHR ''.''" by (simp only: code_unit_eq_iff)
qed simp

subsection \<open>Languages of the building blocks\<close>

lemma star_Atom:
  "lang ic (Star (Atom a)) = {u. \<forall>c\<in>set u. class_matches ic a c}"
proof (rule set_eqI, rule iffI)
  fix u
  assume "u \<in> lang ic (Star (Atom a))"
  then have "u \<in> star {[c] | c. class_matches ic a c}" by simp
  then have "\<forall>c\<in>set u. class_matches ic a c"
    by (induction rule: star.induct) auto
  then show "u \<in> {u. \<forall>c\<in>set u. class_matches ic a c}" by simp
next
  fix u
  assume "u \<in> {u. \<forall>c\<in>set u. class_matches ic a c}"
  then have "u \<in> star {[c] | c. class_matches ic a c}"
  proof (induction u)
    case Nil
    show ?case by (rule star.star_empty)
  next
    case (Cons x xs)
    then have "[x] \<in> {[c] | c. class_matches ic a c}" "xs \<in> star {[c] | c. class_matches ic a c}"
      by simp_all
    then have "[x] @ xs \<in> star {[c] | c. class_matches ic a c}" by (rule star.star_step)
    then show ?case by simp
  qed
  then show "u \<in> lang ic (Star (Atom a))" by simp
qed

lemma conc_Atom:
  "conc (lang ic (Atom a)) B = {c # v | c v. class_matches ic a c \<and> v \<in> B}"
proof (rule set_eqI, rule iffI)
  fix w
  assume "w \<in> conc (lang ic (Atom a)) B"
  then show "w \<in> {c # v | c v. class_matches ic a c \<and> v \<in> B}"
    by (auto simp: conc_def)
next
  fix w
  assume "w \<in> {c # v | c v. class_matches ic a c \<and> v \<in> B}"
  then obtain c v where "w = c # v" "class_matches ic a c" "v \<in> B" by blast
  then have "w = [c] @ v \<and> [c] \<in> lang ic (Atom a) \<and> v \<in> B" by simp
  then show "w \<in> conc (lang ic (Atom a)) B"
    unfolding conc_def by blast
qed

lemma plus_Atom:
  "lang ic (plus (Atom a)) = {u. u \<noteq> [] \<and> (\<forall>c\<in>set u. class_matches ic a c)}"
proof -
  have "lang ic (plus (Atom a)) =
      {c # v | c v. class_matches ic a c \<and> (\<forall>x\<in>set v. class_matches ic a x)}"
    unfolding plus_def lang.simps(4) conc_Atom star_Atom by simp
  also have "\<dots> = {u. u \<noteq> [] \<and> (\<forall>c\<in>set u. class_matches ic a c)}"
  proof (rule set_eqI)
    fix u
    show "u \<in> {c # v | c v. class_matches ic a c \<and> (\<forall>x\<in>set v. class_matches ic a x)}
        \<longleftrightarrow> u \<in> {u. u \<noteq> [] \<and> (\<forall>c\<in>set u. class_matches ic a c)}"
      by (cases u) auto
  qed
  finally show ?thesis .
qed

lemma times_Atom:
  "lang ic (times n (Atom a)) = {u. length u = n \<and> (\<forall>c\<in>set u. class_matches ic a c)}"
proof (induction n)
  case 0
  show ?case by auto
next
  case (Suc n)
  show ?case
  proof (rule set_eqI)
    fix u
    show "u \<in> lang ic (times (Suc n) (Atom a))
        \<longleftrightarrow> u \<in> {u. length u = Suc n \<and> (\<forall>c\<in>set u. class_matches ic a c)}"
      unfolding times.simps lang.simps(4) conc_Atom Suc.IH by (cases u) auto
  qed
qed

lemma up_to_Atom:
  "lang ic (up_to n (Atom a)) = {u. length u \<le> n \<and> (\<forall>c\<in>set u. class_matches ic a c)}"
proof (induction n)
  case 0
  show ?case by auto
next
  case (Suc n)
  show ?case
  proof (rule set_eqI)
    fix u
    show "u \<in> lang ic (up_to (Suc n) (Atom a))
        \<longleftrightarrow> u \<in> {u. length u \<le> Suc n \<and> (\<forall>c\<in>set u. class_matches ic a c)}"
      unfolding up_to.simps lang.simps(4, 5) conc_Atom Suc.IH by (cases u) auto
  qed
qed

lemma conc_append:
  "w \<in> conc A B \<longleftrightarrow> (\<exists>u v. w = u @ v \<and> u \<in> A \<and> v \<in> B)"
  by (auto simp: conc_def)

lemma at_least_Atom:
  "lang ic (at_least n (Atom a)) = {u. n \<le> length u \<and> (\<forall>c\<in>set u. class_matches ic a c)}"
proof (rule set_eqI, rule iffI)
  fix w
  assume "w \<in> lang ic (at_least n (Atom a))"
  then obtain u v where "w = u @ v" "length u = n" "\<forall>c\<in>set u. class_matches ic a c"
      "\<forall>c\<in>set v. class_matches ic a c"
    unfolding at_least_def lang.simps(4) conc_append times_Atom star_Atom by blast
  then show "w \<in> {u. n \<le> length u \<and> (\<forall>c\<in>set u. class_matches ic a c)}" by auto
next
  fix w
  assume "w \<in> {u. n \<le> length u \<and> (\<forall>c\<in>set u. class_matches ic a c)}"
  then have w: "n \<le> length w" "\<forall>c\<in>set w. class_matches ic a c" by simp_all
  have "w = take n w @ drop n w" by simp
  moreover have "length (take n w) = n" using w(1) by simp
  moreover have "\<forall>c\<in>set (take n w). class_matches ic a c"
    using w(2) by (meson in_set_takeD)
  moreover have "\<forall>c\<in>set (drop n w). class_matches ic a c"
    using w(2) by (meson in_set_dropD)
  ultimately show "w \<in> lang ic (at_least n (Atom a))"
    unfolding at_least_def lang.simps(4) conc_append times_Atom star_Atom by blast
qed

lemma between_Atom:
  "m \<le> n \<Longrightarrow> lang ic (between m n (Atom a)) =
     {u. m \<le> length u \<and> length u \<le> n \<and> (\<forall>c\<in>set u. class_matches ic a c)}"
proof (rule set_eqI, rule iffI)
  fix w
  assume "m \<le> n" "w \<in> lang ic (between m n (Atom a))"
  then obtain u v where "w = u @ v" "length u = m" "\<forall>c\<in>set u. class_matches ic a c"
      "length v \<le> n - m" "\<forall>c\<in>set v. class_matches ic a c"
    unfolding between_def lang.simps(4) conc_append times_Atom up_to_Atom by blast
  with \<open>m \<le> n\<close>
  show "w \<in> {u. m \<le> length u \<and> length u \<le> n \<and> (\<forall>c\<in>set u. class_matches ic a c)}"
    by auto
next
  fix w
  assume "m \<le> n"
    "w \<in> {u. m \<le> length u \<and> length u \<le> n \<and> (\<forall>c\<in>set u. class_matches ic a c)}"
  then have w: "m \<le> length w" "length w \<le> n" "\<forall>c\<in>set w. class_matches ic a c"
    by simp_all
  have "w = take m w @ drop m w" by simp
  moreover have "length (take m w) = m" using w(1) by simp
  moreover have "length (drop m w) \<le> n - m" using w(1, 2) by simp
  moreover have "\<forall>c\<in>set (take m w). class_matches ic a c"
    using w(3) by (meson in_set_takeD)
  moreover have "\<forall>c\<in>set (drop m w). class_matches ic a c"
    using w(3) by (meson in_set_dropD)
  ultimately show "w \<in> lang ic (between m n (Atom a))"
    unfolding between_def lang.simps(4) conc_append times_Atom up_to_Atom by blast
qed

lemma lit_lang: "lang ic (lit c) = {[x] | x. class_found ic [(c, c)] x}"
  by (simp add: lit_def)

lemma word_lang:
  "lang ic (word w) = {u. list_all2 (\<lambda>c x. class_found ic [(c, c)] x) w u}"
proof (induction w)
  case Nil
  show ?case by auto
next
  case (Cons c cs)
  show ?case
  proof (rule set_eqI)
    fix u
    show "u \<in> lang ic (word (c # cs))
        \<longleftrightarrow> u \<in> {u. list_all2 (\<lambda>c x. class_found ic [(c, c)] x) (c # cs) u}"
      unfolding word.simps lang.simps(4) lit_def conc_Atom Cons.IH
      by (cases u) auto
  qed
qed

subsection \<open>The address pattern\<close>

lemma class_found_exact: "class_found False [(c, c)] x \<longleftrightarrow> x = c"
  by (simp add: class_found_def in_ranges_single)

lemma not_lit_lang:
  "lang False (plus (not_lit c)) = {u. u \<noteq> [] \<and> c \<notin> set u}"
  unfolding not_lit_def plus_Atom by (auto simp: class_found_exact)

lemma lit_lang_exact: "lang False (lit c) = {[c]}"
  unfolding lit_lang by (auto simp: class_found_exact)

lemma concE:
  assumes "w \<in> conc A B"
  obtains u v where "w = u @ v" "u \<in> A" "v \<in> B"
  using assms unfolding conc_def by blast

lemma concI: "u \<in> A \<Longrightarrow> v \<in> B \<Longrightarrow> u @ v \<in> conc A B"
  unfolding conc_def by blast

lemma EMAIL_REGEX_lang:
  "test EMAIL_REGEX email \<longleftrightarrow>
     email \<in> conc (lang False (plus (not_lit CHR ''@'')))
               (conc (lang False (lit CHR ''@''))
                 (conc (lang False (plus (not_lit CHR ''@'')))
                   (conc (lang False (lit CHR ''.'')) (lang False (plus (not_lit CHR ''@''))))))"
  by (simp add: test_def EMAIL_REGEX_def match_whole_lang)

lemma EMAIL_REGEX_shape: "test EMAIL_REGEX email \<longleftrightarrow> (\<exists>l a b. email_shape email l a b)"
proof
  assume "test EMAIL_REGEX email"
  then obtain l x a y b where "email = l @ x @ a @ y @ b"
      "l \<in> lang False (plus (not_lit CHR ''@''))" "x \<in> lang False (lit CHR ''@'')"
      "a \<in> lang False (plus (not_lit CHR ''@''))" "y \<in> lang False (lit CHR ''.'')"
      "b \<in> lang False (plus (not_lit CHR ''@''))"
    unfolding EMAIL_REGEX_lang by (elim concE) simp
  then have "email_shape email l a b"
    by (simp add: email_shape_def not_lit_lang lit_lang_exact)
  then show "\<exists>l a b. email_shape email l a b" by blast
next
  assume "\<exists>l a b. email_shape email l a b"
  then obtain l a b where s: "email_shape email l a b" by blast
  then have b: "b \<in> lang False (plus (not_lit CHR ''@''))"
    and a: "a \<in> lang False (plus (not_lit CHR ''@''))"
    and l: "l \<in> lang False (plus (not_lit CHR ''@''))"
    by (simp_all add: email_shape_def not_lit_lang)
  have at: "[CHR ''@''] \<in> lang False (lit CHR ''@'')"
    and dot: "[CHR ''.''] \<in> lang False (lit CHR ''.'')"
    by (simp_all add: lit_lang_exact)
  have "l @ [CHR ''@''] @ a @ [CHR ''.''] @ b \<in>
      conc (lang False (plus (not_lit CHR ''@'')))
        (conc (lang False (lit CHR ''@''))
          (conc (lang False (plus (not_lit CHR ''@'')))
            (conc (lang False (lit CHR ''.'')) (lang False (plus (not_lit CHR ''@''))))))"
    by (intro concI l at a dot b)
  moreover have "email = l @ [CHR ''@''] @ a @ [CHR ''.''] @ b"
    using s by (simp add: email_shape_def)
  ultimately show "test EMAIL_REGEX email"
    by (simp only: EMAIL_REGEX_lang)
qed

lemma split_on_no_sep: "sep \<notin> set s \<Longrightarrow> split_on sep s = [s]"
  by (induction s) auto

lemma split_on_append:
  "sep \<notin> set l \<Longrightarrow> split_on sep (l @ sep # r) = l # split_on sep r"
  by (induction l) auto

lemma dot_inside_iff:
  "dot_inside d \<longleftrightarrow> (\<exists>a b. d = a @ CHR ''.'' # b \<and> a \<noteq> [] \<and> b \<noteq> [])"
proof
  assume "dot_inside d"
  then have mid: "CHR ''.'' \<in> set (butlast (tl d))" by (simp add: dot_inside_def)
  then obtain m1 m2 where m: "butlast (tl d) = m1 @ CHR ''.'' # m2"
    by (meson split_list)
  from mid have t: "tl d \<noteq> []" by auto
  then have "d \<noteq> []" by auto
  with t have "d = hd d # tl d" "tl d = butlast (tl d) @ [last (tl d)]" by simp_all
  with m have "d = (hd d # m1) @ CHR ''.'' # (m2 @ [last (tl d)])" by simp
  then show "\<exists>a b. d = a @ CHR ''.'' # b \<and> a \<noteq> [] \<and> b \<noteq> []" by blast
next
  assume "\<exists>a b. d = a @ CHR ''.'' # b \<and> a \<noteq> [] \<and> b \<noteq> []"
  then obtain a b where "d = a @ CHR ''.'' # b" "a \<noteq> []" "b \<noteq> []" by blast
  then have "butlast (tl d) = tl a @ CHR ''.'' # butlast b"
    by (simp add: butlast_append)
  then show "dot_inside d" by (simp add: dot_inside_def)
qed

lemma email_shape_parts:
  assumes "email_shape email l a b"
  shows "local_part email = l" and "domain_part email = a @ CHR ''.'' # b"
    and "count_list email CHR ''@'' = 1"
    and "split_on CHR ''@'' email = [l, a @ CHR ''.'' # b]"
proof -
  from assms have e: "email = l @ CHR ''@'' # a @ CHR ''.'' # b"
    and no: "CHR ''@'' \<notin> set l" "CHR ''@'' \<notin> set (a @ CHR ''.'' # b)"
    by (simp_all add: email_shape_def)
  from no(1) have all: "\<forall>c\<in>set l. c \<noteq> CHR ''@''" by blast
  show "local_part email = l"
    unfolding local_part_def e using all by (simp add: takeWhile_tail)
  show "domain_part email = a @ CHR ''.'' # b"
    unfolding domain_part_def e using all by (simp add: dropWhile_append3)
  show "count_list email CHR ''@'' = 1"
    unfolding e using no by (simp add: count_list_0_iff)
  show "split_on CHR ''@'' email = [l, a @ CHR ''.'' # b]"
    unfolding e using no by (simp add: split_on_append split_on_no_sep)
qed

lemma syntax_ok_shape: "spec_syntax_ok email \<longleftrightarrow> (\<exists>l a b. email_shape email l a b)"
proof
  assume ok: "spec_syntax_ok email"
  let ?l = "local_part email" and ?d = "domain_part email"
  from ok have one: "count_list email CHR ''@'' = 1" and l: "?l \<noteq> []" and d: "?d \<noteq> []"
    and dot: "dot_inside ?d"
    by (simp_all add: spec_syntax_ok_def)
  from one have "CHR ''@'' \<in> set email"
    by (metis count_list_0_iff zero_neq_one)
  then have "dropWhile (\<lambda>c. c \<noteq> CHR ''@'') email \<noteq> []" by auto
  then have hd: "dropWhile (\<lambda>c. c \<noteq> CHR ''@'') email = CHR ''@'' # ?d"
    using hd_dropWhile [of "\<lambda>c. c \<noteq> CHR ''@''" email]
    by (cases "dropWhile (\<lambda>c. c \<noteq> CHR ''@'') email") (simp_all add: domain_part_def)
  have e: "email = ?l @ CHR ''@'' # ?d"
    using takeWhile_dropWhile_id [of "\<lambda>c. c \<noteq> CHR ''@''" email]
    by (simp add: local_part_def hd)
  have nl: "CHR ''@'' \<notin> set ?l"
    unfolding local_part_def by (auto dest: set_takeWhileD)
  have "count_list email CHR ''@'' = count_list ?l CHR ''@'' + 1 + count_list ?d CHR ''@''"
    by (subst e) simp
  with one have "count_list ?d CHR ''@'' = 0" by simp
  then have nd: "CHR ''@'' \<notin> set ?d" by (simp add: count_list_0_iff)
  from dot obtain a b where ab: "?d = a @ CHR ''.'' # b" "a \<noteq> []" "b \<noteq> []"
    unfolding dot_inside_iff by blast
  with nd have "CHR ''@'' \<notin> set a" "CHR ''@'' \<notin> set b" by simp_all
  with e ab l nl have "email_shape email ?l a b"
    by (simp add: email_shape_def)
  then show "\<exists>l a b. email_shape email l a b" by blast
next
  assume "\<exists>l a b. email_shape email l a b"
  then obtain l a b where s: "email_shape email l a b" by blast
  then have "l \<noteq> []" "a \<noteq> []" "b \<noteq> []" by (simp_all add: email_shape_def)
  moreover then have "dot_inside (a @ CHR ''.'' # b)"
    unfolding dot_inside_iff by blast
  ultimately show "spec_syntax_ok email"
    by (simp add: spec_syntax_ok_def email_shape_parts [OF s])
qed

lemma EMAIL_REGEX_syntax_ok: "test EMAIL_REGEX email \<longleftrightarrow> spec_syntax_ok email"
  by (simp only: EMAIL_REGEX_shape syntax_ok_shape)

lemma syntax_ok_split:
  assumes "spec_syntax_ok email"
  shows "split_on CHR ''@'' email = [local_part email, domain_part email]"
    and "local_part email \<noteq> []" and "domain_part email \<noteq> []"
proof -
  from assms obtain l a b where s: "email_shape email l a b"
    unfolding syntax_ok_shape by blast
  show "split_on CHR ''@'' email = [local_part email, domain_part email]"
    by (simp add: email_shape_parts [OF s])
  from assms show "local_part email \<noteq> []" "domain_part email \<noteq> []"
    by (simp_all add: spec_syntax_ok_def)
qed

subsection \<open>The engine, step by step\<close>

lemma fetch_eq:
  "fetch e q sent =
     ((case network e q of Rejected f \<Rightarrow> Inl (FetchFailed f) | Fulfilled r \<Rightarrow> Inr r),
      sent @ [q])"
  by (simp add: fetch_def split: settled.split)

lemma json_eq:
  "json r sent = ((case r of Response None \<Rightarrow> Inl SyntaxError | Response (Some v) \<Rightarrow> Inr v), sent)"
  by (cases r rule: json.cases) (simp_all add: reject_def resolve_def)

text \<open>The outcome of the MX lookup, read off the network's answer.\<close>

lemma mx_lookup_eq:
  "mx_lookup e domain =
     (case network e (dns_request domain ''MX'') of
        Rejected f \<Rightarrow> Inl (Error ''DNS lookup failed'')
      | Fulfilled (Response None) \<Rightarrow> Inl (Error ''DNS lookup failed'')
      | Fulfilled (Response (Some data)) \<Rightarrow>
          (case prop_Answer data of
             Inl err \<Rightarrow> Inl (Error ''DNS lookup failed'')
           | Inr answer \<Rightarrow> Inr (js_or answer (Arr []))))"
  by (simp add: mx_lookup_def getMXRecords_def try_catch_def await_def fetch_eq json_eq
      of_result_def resolve_def reject_def
      split: settled.split response.split option.split sum.split)

lemma getMXRecords_eq:
  "getMXRecords e domain sent = (mx_lookup e domain, sent @ [dns_request domain ''MX''])"
  by (simp add: mx_lookup_def getMXRecords_def try_catch_def await_def fetch_eq json_eq
      of_result_def resolve_def reject_def
      split: settled.split response.split option.split sum.split)

lemma hasARecords_eq:
  "hasARecords e domain sent = (Inr (a_lookup e domain), sent @ [dns_request domain ''A''])"
  by (simp add: a_lookup_def hasARecords_def try_catch_def await_def fetch_eq json_eq
      of_result_def resolve_def reject_def
      split: settled.split response.split option.split sum.split)

lemma getDomainInfo_eq:
  "getDomainInfo domain sent = (Inr \<lparr>suspicious = is_suspicious domain\<rparr>, sent)"
  by (simp add: getDomainInfo_def is_suspicious_def resolve_def)

lemma truthy_length:
  "truthy v \<Longrightarrow> \<exists>len. prop_length v = Inr len"
  by (cases v) simp_all

lemma strict_eq_zero: "strict_eq len (Num 0) \<longleftrightarrow> len = Num 0"
  by (cases len) simp_all

lemma dns_checks_eq:
  "dns_checks e domain sent =
     (case mx_lookup e domain of
        Inl err \<Rightarrow> (Inl err, sent @ [dns_request domain ''MX''])
      | Inr v \<Rightarrow>
          if no_records v
          then (Inr \<lparr>status = ''invalid'', reason = ''no_mx''\<rparr>,
                sent @ [dns_request domain ''MX''])
          else if is_suspicious domain
          then (Inr \<lparr>status = ''risky'', reason = ''suspicious_domain''\<rparr>,
                sent @ [dns_request domain ''MX'', dns_request domain ''A''])
          else (Inr \<lparr>status = ''valid'', reason = ''dns_verified''\<rparr>,
                sent @ [dns_request domain ''MX'', dns_request domain ''A'']))"
proof (cases "mx_lookup e domain")
  case (Inl err)
  then show ?thesis
    by (simp add: dns_checks_def await_def getMXRecords_eq)
next
  case (Inr v)
  show ?thesis
  proof (cases "truthy v")
    case False
    with Inr show ?thesis
      by (simp add: dns_checks_def await_def getMXRecords_eq resolve_def no_records_def)
  next
    case True
    then obtain len where len: "prop_length v = Inr len"
      using truthy_length by blast
    with Inr True show ?thesis
      by (simp add: dns_checks_def await_def getMXRecords_eq hasARecords_eq getDomainInfo_eq
          resolve_def of_result_def no_records_def strict_eq_zero)
  qed
qed

lemma no_records_array: "no_records (Arr xs) \<longleftrightarrow> xs = []"
  by (simp add: no_records_def)

text \<open>\<^verbatim>\<open>verifyEmail\<close> as one chain of cases.\<close>

lemma verifyEmail_eq:
  "verifyEmail e email sent =
     (if \<not> spec_syntax_ok email
      then (Inr \<lparr>status = ''invalid'', reason = ''bad_syntax''\<rparr>, sent)
      else if toLowerCase (domain_part email) \<in> DISPOSABLE_DOMAINS
      then (Inr \<lparr>status = ''invalid'', reason = ''disposable_domain''\<rparr>, sent)
      else if toLowerCase (local_part email) \<in> ROLE_BASED_PREFIXES
      then (Inr \<lparr>status = ''invalid'', reason = ''role_based''\<rparr>, sent)
      else
        (case mx_lookup e (domain_part email) of
           Inl err \<Rightarrow>
             (Inr \<lparr>status = ''risky'', reason = ''dns_timeout''\<rparr>,
              sent @ [dns_request (domain_part email) ''MX''])
         | Inr v \<Rightarrow>
             if no_records v
             then (Inr \<lparr>status = ''invalid'', reason = ''no_mx''\<rparr>,
                   sent @ [dns_request (domain_part email) ''MX''])
             else if is_suspicious (domain_part email)
             then (Inr \<lparr>status = ''risky'', reason = ''suspicious_domain''\<rparr>,
                   sent @ [dns_request (domain_part email) ''MX'',
                           dns_request (domain_part email) ''A''])
             else (Inr \<lparr>status = ''valid'', reason = ''dns_verified''\<rparr>,
                   sent @ [dns_request (domain_part email) ''MX'',
                           dns_request (domain_part email) ''A''])))"
proof (cases "spec_syntax_ok email")
  case False
  then show ?thesis
    by (simp add: verifyEmail_def EMAIL_REGEX_syntax_ok resolve_def)
next
  case True
  note parts = syntax_ok_split [OF True]
  show ?thesis
    using True parts(2, 3)
    by (simp add: verifyEmail_def EMAIL_REGEX_syntax_ok parts(1) resolve_def try_catch_def
        dns_checks_eq split: sum.split)
qed

subsection \<open>The suspicion patterns\<close>

lemma digit_run_iff:
  "contains_digit_run n s \<longleftrightarrow>
     (\<exists>p u v. s = p @ u @ v \<and> n \<le> length u \<and> (\<forall>c\<in>set u. is_digit c))"
proof (induction s)
  case Nil
  show ?case by simp
next
  case (Cons c cs)
  show ?case
  proof
    assume "contains_digit_run n (c # cs)"
    then consider "n \<le> length (takeWhile is_digit (c # cs))" | "contains_digit_run n cs"
      by auto
    then show "\<exists>p u v. c # cs = p @ u @ v \<and> n \<le> length u \<and> (\<forall>c\<in>set u. is_digit c)"
    proof cases
      case 1
      let ?u = "takeWhile is_digit (c # cs)" and ?v = "dropWhile is_digit (c # cs)"
      have "c # cs = [] @ ?u @ ?v \<and> n \<le> length ?u \<and> (\<forall>c\<in>set ?u. is_digit c)"
        using 1 by (auto dest: set_takeWhileD)
      then show ?thesis by blast
    next
      case 2
      then obtain p u v where "cs = p @ u @ v" "n \<le> length u" "\<forall>c\<in>set u. is_digit c"
        unfolding Cons.IH by blast
      then have "c # cs = (c # p) @ u @ v \<and> n \<le> length u \<and> (\<forall>c\<in>set u. is_digit c)"
        by simp
      then show ?thesis by blast
    qed
  next
    assume "\<exists>p u v. c # cs = p @ u @ v \<and> n \<le> length u \<and> (\<forall>c\<in>set u. is_digit c)"
    then obtain p u v where puv: "c # cs = p @ u @ v" "n \<le> length u" "\<forall>c\<in>set u. is_digit c"
      by blast
    show "contains_digit_run n (c # cs)"
    proof (cases p)
      case Nil
      with puv(1) have "takeWhile is_digit (c # cs) = u @ takeWhile is_digit v"
        using puv(3) by simp
      with puv(2) have "n \<le> length (takeWhile is_digit (c # cs))" by simp
      then show ?thesis by simp
    next
      case (Cons a p')
      with puv have "cs = p' @ u @ v \<and> n \<le> length u \<and> (\<forall>c\<in>set u. is_digit c)" by simp
      then have "contains_digit_run n cs" unfolding Cons.IH by blast
      then show ?thesis by simp
    qed
  qed
qed

lemma take_prefix_iff: "take (length w) s = w \<longleftrightarrow> (\<exists>v. s = w @ v)"
proof
  assume "take (length w) s = w"
  then have "s = w @ drop (length w) s" by (metis append_take_drop_id)
  then show "\<exists>v. s = w @ v" ..
next
  assume "\<exists>v. s = w @ v"
  then show "take (length w) s = w" by auto
qed

lemma contains_iff: "contains w s \<longleftrightarrow> (\<exists>p v. s = p @ w @ v)"
proof (induction s)
  case Nil
  show ?case by auto
next
  case (Cons c cs)
  show ?case
  proof
    assume "contains w (c # cs)"
    then consider "take (length w) (c # cs) = w" | "contains w cs" by auto
    then show "\<exists>p v. c # cs = p @ w @ v"
    proof cases
      case 1
      then obtain v where "c # cs = [] @ w @ v" unfolding take_prefix_iff by auto
      then show ?thesis by blast
    next
      case 2
      then obtain p v where "cs = p @ w @ v" unfolding Cons.IH by blast
      then have "c # cs = (c # p) @ w @ v" by simp
      then show ?thesis by blast
    qed
  next
    assume "\<exists>p v. c # cs = p @ w @ v"
    then obtain p v where pv: "c # cs = p @ w @ v" by blast
    show "contains w (c # cs)"
    proof (cases p)
      case Nil
      with pv have "\<exists>v. c # cs = w @ v" by simp
      then have "take (length w) (c # cs) = w" by (simp only: take_prefix_iff)
      then show ?thesis by simp
    next
      case (Cons a p')
      with pv have "cs = p' @ w @ v" by simp
      then have "contains w cs" unfolding Cons.IH by blast
      then show ?thesis by simp
    qed
  qed
qed

lemma class_found_ci: "class_found True [(c, c)] x \<longleftrightarrow> canonicalize c = canonicalize x"
  by (auto simp: class_found_def in_ranges_single)

lemma word_lang_lower:
  assumes "list_all is_lower w"
  shows "lang True (word w) = {u. toLowerCase u = w}"
proof -
  have "list_all2 (\<lambda>c x. class_found True [(c, c)] x) w u \<longleftrightarrow> map lower_unit u = w" for u
    using assms
  proof (induction w arbitrary: u)
    case Nil
    show ?case by auto
  next
    case (Cons c cs)
    then show ?case
      by (cases u) (auto simp: class_found_ci canonicalize_eq_lower)
  qed
  then show ?thesis by (simp add: word_lang toLowerCase_def)
qed

lemma search_word_lower:
  assumes "list_all is_lower w"
  shows "(\<exists>p u v. s = p @ u @ v \<and> u \<in> lang True (word w)) \<longleftrightarrow> contains w (toLowerCase s)"
proof
  assume "\<exists>p u v. s = p @ u @ v \<and> u \<in> lang True (word w)"
  then obtain p u v where "s = p @ u @ v" "toLowerCase u = w"
    unfolding word_lang_lower [OF assms] by blast
  then have "toLowerCase s = toLowerCase p @ w @ toLowerCase v"
    by (auto simp: toLowerCase_def)
  then show "contains w (toLowerCase s)" unfolding contains_iff by blast
next
  assume "contains w (toLowerCase s)"
  then obtain p' v' where "map lower_unit s = p' @ w @ v'"
    unfolding contains_iff toLowerCase_def by blast
  then obtain p r where 1: "s = p @ r" "w @ v' = map lower_unit r"
    unfolding map_eq_append_conv by blast
  then obtain u v where 2: "r = u @ v" "w = map lower_unit u"
    unfolding append_eq_map_conv by blast
  have "u \<in> lang True (word w)"
    unfolding word_lang_lower [OF assms] using 2(2) by (simp add: toLowerCase_def)
  with 1(1) 2(1) have "s = p @ u @ v \<and> u \<in> lang True (word w)" by simp
  then show "\<exists>p u v. s = p @ u @ v \<and> u \<in> lang True (word w)" by blast
qed

lemma keyword_lower:
  "list_all is_lower ''temp''" "list_all is_lower ''test''"
  "list_all is_lower ''fake''" "list_all is_lower ''spam''"
  by (simp_all add: is_lower_def code_unit_def)

lemma keyword_toLowerCase:
  "toLowerCase ''temp'' = ''temp''" "toLowerCase ''test'' = ''test''"
  "toLowerCase ''fake'' = ''fake''" "toLowerCase ''spam'' = ''spam''"
  using keyword_lower by (simp_all add: toLowerCase_def lower_unit_lower)

lemma pattern_digit_run:
  "test (suspiciousPatterns ! 0) d \<longleftrightarrow> contains_digit_run 5 d"
proof -
  have "test (suspiciousPatterns ! 0) d \<longleftrightarrow> search False (at_least 5 digit) d"
    by (simp add: suspiciousPatterns_def test_def)
  also have "\<dots> \<longleftrightarrow>
      (\<exists>p u v. d = p @ u @ v \<and> u \<in> lang False (at_least 5 (Atom (Chars [(CHR ''0'', CHR ''9'')]))))"
    by (simp only: search_lang digit_def)
  also have "lang False (at_least 5 (Atom (Chars [(CHR ''0'', CHR ''9'')]))) =
      {u. 5 \<le> length u \<and> (\<forall>c\<in>set u. is_digit c)}"
    by (simp add: at_least_Atom class_found_digit)
  also have "(\<exists>p u v. d = p @ u @ v \<and> u \<in> {u. 5 \<le> length u \<and> (\<forall>c\<in>set u. is_digit c)})
      \<longleftrightarrow> (\<exists>p u v. d = p @ u @ v \<and> 5 \<le> length u \<and> (\<forall>c\<in>set u. is_digit c))"
    by simp
  finally show ?thesis by (simp only: digit_run_iff)
qed

lemma pattern_keyword:
  "test (suspiciousPatterns ! 1) d \<longleftrightarrow> spec_keyword d"
proof -
  let ?has = "\<lambda>w. \<exists>p u v. d = p @ u @ v \<and> u \<in> lang True (word w)"
  have "test (suspiciousPatterns ! 1) d \<longleftrightarrow>
      search True (Alt (word ''temp'') (Alt (word ''test'') (Alt (word ''fake'') (word ''spam'')))) d"
    by (simp add: suspiciousPatterns_def test_def)
  also have "\<dots> \<longleftrightarrow> ?has ''temp'' \<or> ?has ''test'' \<or> ?has ''fake'' \<or> ?has ''spam''"
    by (simp only: search_lang lang.simps(5) Un_iff conj_disj_distribL ex_disj_distrib)
  also have "\<dots> \<longleftrightarrow> contains ''temp'' (toLowerCase d) \<or> contains ''test'' (toLowerCase d) \<or>
      contains ''fake'' (toLowerCase d) \<or> contains ''spam'' (toLowerCase d)"
    by (simp only: search_word_lower [OF keyword_lower(1)] search_word_lower [OF keyword_lower(2)]
        search_word_lower [OF keyword_lower(3)] search_word_lower [OF keyword_lower(4)])
  also have "\<dots> \<longleftrightarrow> spec_keyword d"
    by (simp add: spec_keyword_def contains_ignoring_case_def keyword_toLowerCase)
  finally show ?thesis .
qed

lemma letter_not_digit: "is_letter c \<Longrightarrow> \<not> is_digit c"
  by (auto simp: is_letter_def is_lower_def is_upper_def is_digit_def)

lemma digit_not_dot: "is_digit c \<Longrightarrow> c \<noteq> CHR ''.''"
  by (auto simp: is_digit_def code_unit_def)

lemma letter_not_dot: "is_letter c \<Longrightarrow> c \<noteq> CHR ''.''"
  by (auto simp: is_letter_def is_lower_def is_upper_def code_unit_def)

lemma short_label_iff:
  "short_label is_letter d \<longleftrightarrow>
     (\<exists>l ds v. d = l @ ds @ CHR ''.'' # v \<and> 1 \<le> length l \<and> length l \<le> 3 \<and>
        (\<forall>c\<in>set l. is_letter c) \<and> ds \<noteq> [] \<and> (\<forall>c\<in>set ds. is_digit c))"
proof
  assume sl: "short_label is_letter d"
  let ?lab = "first_label d"
  let ?l = "takeWhile is_letter ?lab" and ?ds = "dropWhile is_letter ?lab"
  from sl have dot: "CHR ''.'' \<in> set d" and ltd: "letters_then_digits is_letter ?lab"
    by (simp_all add: short_label_def)
  from dot have "dropWhile (\<lambda>c. c \<noteq> CHR ''.'') d \<noteq> []" by auto
  then obtain v where v: "dropWhile (\<lambda>c. c \<noteq> CHR ''.'') d = CHR ''.'' # v"
    using hd_dropWhile [of "\<lambda>c. c \<noteq> CHR ''.''" d]
    by (cases "dropWhile (\<lambda>c. c \<noteq> CHR ''.'') d") auto
  have "takeWhile (\<lambda>c. c \<noteq> CHR ''.'') d @ dropWhile (\<lambda>c. c \<noteq> CHR ''.'') d = d"
    by (rule takeWhile_dropWhile_id)
  then have e1: "d = ?lab @ CHR ''.'' # v"
    by (simp only: first_label_def v)
  have e2: "?l @ ?ds @ CHR ''.'' # v = ?lab @ CHR ''.'' # v" by simp
  have "d = ?l @ ?ds @ CHR ''.'' # v"
    by (rule trans [OF e1 e2 [symmetric]])
  moreover have "\<forall>c\<in>set ?l. is_letter c" by (auto dest: set_takeWhileD)
  moreover from ltd have "1 \<le> length ?l" "length ?l \<le> 3" "?ds \<noteq> []" "\<forall>c\<in>set ?ds. is_digit c"
    by (simp_all add: letters_then_digits_def list_all_iff)
  ultimately show "\<exists>l ds v. d = l @ ds @ CHR ''.'' # v \<and> 1 \<le> length l \<and> length l \<le> 3 \<and>
        (\<forall>c\<in>set l. is_letter c) \<and> ds \<noteq> [] \<and> (\<forall>c\<in>set ds. is_digit c)"
    by blast
next
  assume "\<exists>l ds v. d = l @ ds @ CHR ''.'' # v \<and> 1 \<le> length l \<and> length l \<le> 3 \<and>
        (\<forall>c\<in>set l. is_letter c) \<and> ds \<noteq> [] \<and> (\<forall>c\<in>set ds. is_digit c)"
  then obtain l ds v where d: "d = l @ ds @ CHR ''.'' # v" and len: "1 \<le> length l" "length l \<le> 3"
    and l: "\<forall>c\<in>set l. is_letter c" and ds: "ds \<noteq> []" "\<forall>c\<in>set ds. is_digit c"
    by blast
  have nodot: "\<forall>c\<in>set (l @ ds). c \<noteq> CHR ''.''"
    using l ds(2) letter_not_dot digit_not_dot by auto
  have "first_label d = takeWhile (\<lambda>c. c \<noteq> CHR ''.'') ((l @ ds) @ CHR ''.'' # v)"
    by (simp add: first_label_def d)
  also have "\<dots> = takeWhile (\<lambda>c. c \<noteq> CHR ''.'') (l @ ds)"
    by (rule takeWhile_tail) simp
  also have "\<dots> = l @ ds"
    using nodot by (simp only: takeWhile_eq_all_conv)
  finally have lab: "first_label d = l @ ds" .
  from ds obtain x xs where x: "ds = x # xs" "is_digit x" by (cases ds) auto
  then have nl: "\<not> is_letter x" using letter_not_digit by blast
  have tw: "takeWhile is_letter (l @ ds) = l" and dw: "dropWhile is_letter (l @ ds) = ds"
    using l nl x(1) by simp_all
  have "letters_then_digits is_letter (l @ ds)"
    using len ds by (simp add: letters_then_digits_def tw dw list_all_iff)
  moreover have "CHR ''.'' \<in> set d" by (simp add: d)
  ultimately show "short_label is_letter d"
    by (simp only: short_label_def lab simp_thms)
qed

lemma pattern_short_label:
  "test (suspiciousPatterns ! 2) d \<longleftrightarrow> short_label is_letter d"
proof -
  let ?L = "lang True (between 1 3 (Atom (Chars [(CHR ''a'', CHR ''z'')])))"
  let ?D = "lang True (plus (Atom (Chars [(CHR ''0'', CHR ''9'')])))"
  let ?P = "lang True (lit CHR ''.'')"
  have L: "?L = {u. 1 \<le> length u \<and> length u \<le> 3 \<and> (\<forall>c\<in>set u. is_letter c)}"
    by (simp add: between_Atom class_found_letter)
  have D: "?D = {u. u \<noteq> [] \<and> (\<forall>c\<in>set u. is_digit c)}"
    by (simp add: plus_Atom class_found_digit)
  have P: "?P = {[CHR ''.'']}"
    by (auto simp: lit_lang class_found_ci canonicalize_dot)
  have "test (suspiciousPatterns ! 2) d \<longleftrightarrow>
      (\<exists>u v. d = u @ v \<and> u \<in> conc ?L (conc ?D ?P))"
    by (simp add: suspiciousPatterns_def test_def match_prefix_lang digit_def)
  also have "\<dots> \<longleftrightarrow> (\<exists>l ds v. d = l @ ds @ CHR ''.'' # v \<and> l \<in> ?L \<and> ds \<in> ?D)"
  proof
    assume "\<exists>u v. d = u @ v \<and> u \<in> conc ?L (conc ?D ?P)"
    then obtain u v where "d = u @ v" "u \<in> conc ?L (conc ?D ?P)" by blast
    then obtain l ds p where "d = (l @ ds @ p) @ v" "l \<in> ?L" "ds \<in> ?D" "p \<in> ?P"
      by (elim concE) simp
    then have "d = l @ ds @ CHR ''.'' # v \<and> l \<in> ?L \<and> ds \<in> ?D" by (simp add: P)
    then show "\<exists>l ds v. d = l @ ds @ CHR ''.'' # v \<and> l \<in> ?L \<and> ds \<in> ?D" by blast
  next
    assume "\<exists>l ds v. d = l @ ds @ CHR ''.'' # v \<and> l \<in> ?L \<and> ds \<in> ?D"
    then obtain l ds v where d: "d = l @ ds @ CHR ''.'' # v" and l: "l \<in> ?L" and ds: "ds \<in> ?D"
      by blast
    have "[CHR ''.''] \<in> ?P" by (simp add: P)
    then have "l @ ds @ [CHR ''.''] \<in> conc ?L (conc ?D ?P)"
      by (intro concI l ds)
    moreover have "d = (l @ ds @ [CHR ''.'']) @ v" by (simp add: d)
    ultimately show "\<exists>u v. d = u @ v \<and> u \<in> conc ?L (conc ?D ?P)" by blast
  qed
  also have "\<dots> \<longleftrightarrow> short_label is_letter d"
    unfolding short_label_iff L D by blast
  finally show ?thesis .
qed

lemma is_suspicious_iff:
  "is_suspicious d \<longleftrightarrow> contains_digit_run 5 d \<or> spec_keyword d \<or> short_label is_letter d"
proof -
  have "is_suspicious d \<longleftrightarrow> test (suspiciousPatterns ! 0) d \<or> test (suspiciousPatterns ! 1) d \<or>
      test (suspiciousPatterns ! 2) d"
    by (simp add: is_suspicious_def suspiciousPatterns_def)
  then show ?thesis
    by (simp only: pattern_digit_run pattern_keyword pattern_short_label)
qed

subsection \<open>Sample inputs\<close>

lemma sample_parts:
  "local_part ''user@example.com'' = ''user''"
  "domain_part ''user@example.com'' = ''example.com''"
  by (simp_all add: local_part_def domain_part_def)

lemma sample_syntax_ok: "spec_syntax_ok ''user@example.com''"
  by (simp add: spec_syntax_ok_def sample_parts dot_inside_def)

lemma sample_lower:
  "toLowerCase ''user'' = ''user''" "toLowerCase ''example.com'' = ''example.com''"
  by (simp_all add: toLowerCase_def lower_unit_def is_upper_def code_unit_def)

lemma sample_not_listed:
  "''example.com'' \<notin> DISPOSABLE_DOMAINS" "''user'' \<notin> ROLE_BASED_PREFIXES"
  by (simp_all add: DISPOSABLE_DOMAINS_def ROLE_BASED_PREFIXES_def)

lemma sample_not_suspicious: "\<not> is_suspicious ''example.com''"
  by (simp add: is_suspicious_iff spec_keyword_def contains_ignoring_case_def keyword_toLowerCase
      sample_lower short_label_def first_label_def letters_then_digits_def
      is_digit_def is_letter_def is_lower_def is_upper_def code_unit_def)

lemma AB12_suspicious: "is_suspicious ''AB12.co''"
  by (simp add: is_suspicious_iff short_label_def first_label_def letters_then_digits_def
      is_digit_def is_letter_def is_lower_def is_upper_def code_unit_def)

lemma AB12_not_spec_suspicious: "\<not> spec_suspicious ''AB12.co''"
  by (simp add: spec_suspicious_def spec_keyword_def contains_ignoring_case_def keyword_toLowerCase
      toLowerCase_def lower_unit_def short_label_def first_label_def letters_then_digits_def
      is_digit_def is_letter_def is_lower_def is_upper_def code_unit_def)

lemma sample_mx_lookup:
  "mx_lookup (answering (Obj [(''Status'', Num 0), (''Answer'', Arr [mx_record])])) d =
     Inr (Arr [mx_record])"
  by (simp add: mx_lookup_eq answering_def own_property_def js_or_def)

lemma mx_url_not_a_url: "url (dns_request d ''MX'') \<noteq> url (dns_request d' ''A'')"
proof
  assume "url (dns_request d ''MX'') = url (dns_request d' ''A'')"
  then have "last (url (dns_request d ''MX'')) = last (url (dns_request d' ''A''))"
    by (rule arg_cong)
  then show False by (simp add: dns_request_def)
qed

lemma a_times_out_mx:
  "network (a_times_out data) (dns_request d ''MX'') = Fulfilled (Response (Some data))"
  by (simp add: a_times_out_def mx_url_not_a_url)

lemma a_times_out_a:
  "network (a_times_out data) (dns_request ''example.com'' ''A'') = Rejected TimedOut"
  by (simp add: a_times_out_def)

lemma sample_verifyEmail:
  assumes "mx_lookup e ''example.com'' = Inr v" "\<not> no_records v"
  shows "verifyEmail e ''user@example.com'' sent =
     (Inr \<lparr>status = ''valid'', reason = ''dns_verified''\<rparr>,
      sent @ [dns_request ''example.com'' ''MX'', dns_request ''example.com'' ''A''])"
  using assms
  by (simp add: verifyEmail_eq sample_syntax_ok sample_parts sample_lower sample_not_listed
      sample_not_suspicious)

lemma sample_verifyEmail_fails:
  assumes "mx_lookup e ''example.com'' = Inl err"
  shows "verifyEmail e ''user@example.com'' sent =
     (Inr \<lparr>status = ''risky'', reason = ''dns_timeout''\<rparr>,
      sent @ [dns_request ''example.com'' ''MX''])"
  using assms
  by (simp add: verifyEmail_eq sample_syntax_ok sample_parts sample_lower sample_not_listed)

lemma dns_checks_fault:
  "fst (dns_checks e domain sent) = Inl err \<longleftrightarrow> mx_lookup e domain = Inl err"
  by (simp add: dns_checks_eq split: sum.split)

section \<open>The claims\<close>

text \<open>
  C1. For every input string, \<^verbatim>\<open>verifyEmail\<close> resolves to the verdict of the first
  matching rule of the ordered sequence: a syntax failure gives invalid/bad_syntax;
  else a disposable domain gives invalid/disposable_domain; else a role-based local part
  gives invalid/role_based; else a failed MX lookup gives risky/dns_timeout; else an
  empty MX answer gives invalid/no_mx; else a suspicious domain gives
  risky/suspicious_domain; otherwise valid/dns_verified. The syntax rule is the
  pattern of the specification; the MX lookup fails when \<^verbatim>\<open>getMXRecords\<close> rejects, and
  its answer is empty when the value it resolves to passes the program's own test, which
  for an array says that it has no element.
\<close>

theorem verifyEmail_first_matching_rule:
  "fst (verifyEmail e email sent) =
     Inr (decision_sequence
           (\<not> spec_syntax_ok email)
           (toLowerCase (domain_part email) \<in> DISPOSABLE_DOMAINS)
           (toLowerCase (local_part email) \<in> ROLE_BASED_PREFIXES)
           (mx_fails e (domain_part email))
           (mx_empty e (domain_part email))
           (is_suspicious (domain_part email)))"
  by (simp add: verifyEmail_eq decision_sequence_def first_match_def mx_fails_def mx_empty_def
      split: sum.split)

theorem verifyEmail_first_matching_rule_witness:
  "fst (verifyEmail (answering (Obj [(''Status'', Num 0), (''Answer'', Arr [mx_record])]))
          ''user@example.com'' []) =
     Inr \<lparr>status = ''valid'', reason = ''dns_verified''\<rparr>"
  using verifyEmail_first_matching_rule
    [of "answering (Obj [(''Status'', Num 0), (''Answer'', Arr [mx_record])])"
        "''user@example.com''" "[]"]
  by (simp add: decision_sequence_def first_match_def mx_fails_def mx_empty_def
      sample_syntax_ok sample_parts sample_lower sample_not_listed sample_not_suspicious
      sample_mx_lookup no_records_def)

text \<open>
  C2. For every string that does not have exactly one \<^verbatim>\<open>@\<close>, or has an empty local
  or domain part, or has no dot with non-empty text on both sides in the domain,
  \<^verbatim>\<open>verifyEmail\<close> resolves to invalid/bad_syntax and issues no request: the list of
  requests issued is the one it started with.
\<close>

theorem bad_syntax_without_network:
  assumes "count_list email CHR ''@'' \<noteq> 1 \<or> local_part email = [] \<or> domain_part email = [] \<or>
    \<not> dot_inside (domain_part email)"
  shows "verifyEmail e email sent = (Inr \<lparr>status = ''invalid'', reason = ''bad_syntax''\<rparr>, sent)"
proof -
  from assms have "\<not> spec_syntax_ok email"
    unfolding spec_syntax_ok_def by blast
  then show ?thesis by (simp add: verifyEmail_eq)
qed

theorem bad_syntax_without_network_witness:
  "count_list ''user@@example.com'' CHR ''@'' \<noteq> 1 \<and>
   verifyEmail (failing NetworkFailure) ''user@@example.com'' [] =
     (Inr \<lparr>status = ''invalid'', reason = ''bad_syntax''\<rparr>, [])"
proof -
  have h: "count_list ''user@@example.com'' CHR ''@'' \<noteq> 1" by simp
  then have "count_list ''user@@example.com'' CHR ''@'' \<noteq> 1 \<or>
      local_part ''user@@example.com'' = [] \<or> domain_part ''user@@example.com'' = [] \<or>
      \<not> dot_inside (domain_part ''user@@example.com'')"
    by blast
  from bad_syntax_without_network [OF this] h show ?thesis by blast
qed

text \<open>
  C3. \<^verbatim>\<open>getDomainInfo\<close> flags a domain as suspicious if and only if one of three
  predicates holds: the domain contains a run of five or more digits; it contains,
  ignoring case, one of the words temp, test, fake, spam; its first label is one to
  three letters followed by one or more digits and then a dot. The third pattern has
  the \<^verbatim>\<open>i\<close> flag, so its letters are the ASCII letters of either case, not the
  lower-case ones only.
\<close>

theorem getDomainInfo_suspicious_iff:
  "\<exists>info. fst (getDomainInfo d sent) = Inr info \<and>
     (suspicious info \<longleftrightarrow>
        contains_digit_run 5 d \<or> spec_keyword d \<or> short_label is_letter d)"
  by (simp add: getDomainInfo_eq is_suspicious_iff)

theorem getDomainInfo_suspicious_iff_witness:
  "\<exists>info. fst (getDomainInfo ''ab12.co'' []) = Inr info \<and> suspicious info"
proof -
  have "short_label is_letter ''ab12.co''"
    by (simp add: short_label_def first_label_def letters_then_digits_def
        is_digit_def is_letter_def is_lower_def is_upper_def code_unit_def)
  with getDomainInfo_suspicious_iff [of "''ab12.co''" "[]"] show ?thesis by blast
qed

theorem upper_case_label_counterexample:
  "fst (getDomainInfo ''AB12.co'' []) = Inr \<lparr>suspicious = True\<rparr> \<and>
   \<not> spec_suspicious ''AB12.co''"
  by (simp add: getDomainInfo_eq AB12_suspicious AB12_not_spec_suspicious)

text \<open>
  C4. The A lookup never affects the verdict: two environments that answer every MX
  request alike, whatever they answer to A requests, give the same result and the same
  requests. \<^verbatim>\<open>hasARecords\<close> always resolves; when its request is rejected, or the
  body is not JSON, or the body is \<^verbatim>\<open>null\<close>, it resolves to \<^verbatim>\<open>false\<close>.
\<close>

theorem a_lookup_never_changes_verdict:
  assumes "\<forall>d. network f (dns_request d ''MX'') = network g (dns_request d ''MX'')"
  shows "verifyEmail f email sent = verifyEmail g email sent \<and>
         (\<exists>v. fst (hasARecords f d sent) = Inr v) \<and>
         ((\<exists>x. network f (dns_request d ''A'') = Rejected x) \<or>
          network f (dns_request d ''A'') = Fulfilled (Response None) \<or>
          network f (dns_request d ''A'') = Fulfilled (Response (Some Null))
          \<longrightarrow> fst (hasARecords f d sent) = Inr (Bool False))"
proof -
  from assms have "mx_lookup f (domain_part email) = mx_lookup g (domain_part email)"
    by (simp add: mx_lookup_eq)
  then have "verifyEmail f email sent = verifyEmail g email sent"
    by (simp add: verifyEmail_eq)
  moreover have "\<exists>v. fst (hasARecords f d sent) = Inr v"
    by (simp add: hasARecords_eq)
  moreover have "(\<exists>x. network f (dns_request d ''A'') = Rejected x) \<or>
      network f (dns_request d ''A'') = Fulfilled (Response None) \<or>
      network f (dns_request d ''A'') = Fulfilled (Response (Some Null))
      \<longrightarrow> fst (hasARecords f d sent) = Inr (Bool False)"
    by (auto simp: hasARecords_eq a_lookup_def)
  ultimately show ?thesis by blast
qed

theorem a_lookup_never_changes_verdict_witness:
  "verifyEmail (a_times_out (Obj [(''Answer'', Arr [mx_record])])) ''user@example.com'' [] =
     verifyEmail (answering (Obj [(''Answer'', Arr [mx_record])])) ''user@example.com'' [] \<and>
   fst (verifyEmail (a_times_out (Obj [(''Answer'', Arr [mx_record])])) ''user@example.com'' []) =
     Inr \<lparr>status = ''valid'', reason = ''dns_verified''\<rparr> \<and>
   fst (hasARecords (a_times_out (Obj [(''Answer'', Arr [mx_record])])) ''example.com'' []) =
     Inr (Bool False)"
proof -
  let ?f = "a_times_out (Obj [(''Answer'', Arr [mx_record])])"
  let ?g = "answering (Obj [(''Answer'', Arr [mx_record])])"
  have agree: "\<forall>d. network ?f (dns_request d ''MX'') = network ?g (dns_request d ''MX'')"
    by (simp add: a_times_out_mx answering_def)
  have "mx_lookup ?f ''example.com'' = Inr (Arr [mx_record])"
    by (simp add: mx_lookup_eq a_times_out_mx own_property_def js_or_def)
  then have valid: "fst (verifyEmail ?f ''user@example.com'' []) =
      Inr \<lparr>status = ''valid'', reason = ''dns_verified''\<rparr>"
    by (simp add: sample_verifyEmail no_records_def)
  have "\<exists>x. network ?f (dns_request ''example.com'' ''A'') = Rejected x"
    by (simp add: a_times_out_a)
  with a_lookup_never_changes_verdict [OF agree, of "''user@example.com''" "[]" "''example.com''"]
    valid
  show ?thesis by blast
qed

text \<open>
  C5. When the MX lookup fails, \<^verbatim>\<open>verifyEmail\<close> resolves to risky/dns_timeout and does
  not pass the error on. The lookup fails when its request is rejected, for a network
  failure or a timeout, and when the body of the response is not JSON. The address is
  one the lookup is made for: its syntax is accepted and neither denylist has it.
\<close>

theorem mx_failure_gives_dns_timeout:
  assumes "spec_syntax_ok email"
    and "toLowerCase (domain_part email) \<notin> DISPOSABLE_DOMAINS"
    and "toLowerCase (local_part email) \<notin> ROLE_BASED_PREFIXES"
  shows "(network e (dns_request (domain_part email) ''MX'') = Rejected NetworkFailure \<or>
          network e (dns_request (domain_part email) ''MX'') = Rejected TimedOut \<or>
          network e (dns_request (domain_part email) ''MX'') = Fulfilled (Response None)
          \<longrightarrow> mx_fails e (domain_part email)) \<and>
         (mx_fails e (domain_part email)
          \<longrightarrow> fst (getMXRecords e (domain_part email) sent) = Inl (Error ''DNS lookup failed'') \<and>
              fst (verifyEmail e email sent) = Inr \<lparr>status = ''risky'', reason = ''dns_timeout''\<rparr>)"
proof -
  have "network e (dns_request (domain_part email) ''MX'') = Rejected NetworkFailure \<or>
      network e (dns_request (domain_part email) ''MX'') = Rejected TimedOut \<or>
      network e (dns_request (domain_part email) ''MX'') = Fulfilled (Response None)
      \<longrightarrow> mx_fails e (domain_part email)"
    by (auto simp: mx_fails_def mx_lookup_eq)
  moreover have "mx_fails e (domain_part email)
      \<longrightarrow> fst (getMXRecords e (domain_part email) sent) = Inl (Error ''DNS lookup failed'')"
    by (auto simp: mx_fails_def getMXRecords_eq mx_lookup_eq
        split: settled.splits response.splits option.splits sum.splits)
  moreover have "mx_fails e (domain_part email)
      \<longrightarrow> fst (verifyEmail e email sent) = Inr \<lparr>status = ''risky'', reason = ''dns_timeout''\<rparr>"
    using assms by (simp add: verifyEmail_eq mx_fails_def split: sum.split)
  ultimately show ?thesis by blast
qed

theorem mx_failure_gives_dns_timeout_witness:
  "mx_fails (failing TimedOut) ''example.com'' \<and>
   fst (verifyEmail (failing TimedOut) ''user@example.com'' []) =
     Inr \<lparr>status = ''risky'', reason = ''dns_timeout''\<rparr>"
proof -
  have g: "spec_syntax_ok ''user@example.com''"
    "toLowerCase (domain_part ''user@example.com'') \<notin> DISPOSABLE_DOMAINS"
    "toLowerCase (local_part ''user@example.com'') \<notin> ROLE_BASED_PREFIXES"
    by (simp_all add: sample_syntax_ok sample_parts sample_lower sample_not_listed)
  have "network (failing TimedOut) (dns_request (domain_part ''user@example.com'') ''MX'') =
      Rejected TimedOut"
    by (simp add: failing_def)
  with mx_failure_gives_dns_timeout [OF g, of "failing TimedOut" "[]"]
  show ?thesis by (simp add: sample_parts)
qed

text \<open>
  C6. When the MX lookup succeeds but the answer is missing or empty, \<^verbatim>\<open>getMXRecords\<close>
  resolves to the empty array, not to an error, and \<^verbatim>\<open>verifyEmail\<close> resolves to
  invalid/no_mx. The address is one the lookup is made for.
\<close>

theorem empty_mx_answer_gives_no_mx:
  assumes "spec_syntax_ok email"
    and "toLowerCase (domain_part email) \<notin> DISPOSABLE_DOMAINS"
    and "toLowerCase (local_part email) \<notin> ROLE_BASED_PREFIXES"
    and "network e (dns_request (domain_part email) ''MX'') = Fulfilled (Response (Some data))"
    and "prop_Answer data = Inr Undefined \<or> prop_Answer data = Inr (Arr [])"
  shows "fst (getMXRecords e (domain_part email) sent) = Inr (Arr []) \<and>
         fst (verifyEmail e email sent) = Inr \<lparr>status = ''invalid'', reason = ''no_mx''\<rparr>"
proof -
  from assms(4, 5) have mx: "mx_lookup e (domain_part email) = Inr (Arr [])"
    by (auto simp: mx_lookup_eq js_or_def)
  then have "fst (getMXRecords e (domain_part email) sent) = Inr (Arr [])"
    by (simp add: getMXRecords_eq)
  moreover have "fst (verifyEmail e email sent) = Inr \<lparr>status = ''invalid'', reason = ''no_mx''\<rparr>"
    using assms(1-3) mx by (simp add: verifyEmail_eq no_records_def)
  ultimately show ?thesis by blast
qed

theorem empty_mx_answer_gives_no_mx_witness:
  "prop_Answer (Obj [(''Status'', Num 3)]) = Inr Undefined \<and>
   fst (getMXRecords (answering (Obj [(''Status'', Num 3)])) ''example.com'' []) = Inr (Arr []) \<and>
   fst (verifyEmail (answering (Obj [(''Status'', Num 3)])) ''user@example.com'' []) =
     Inr \<lparr>status = ''invalid'', reason = ''no_mx''\<rparr>"
proof -
  have g: "spec_syntax_ok ''user@example.com''"
    "toLowerCase (domain_part ''user@example.com'') \<notin> DISPOSABLE_DOMAINS"
    "toLowerCase (local_part ''user@example.com'') \<notin> ROLE_BASED_PREFIXES"
    by (simp_all add: sample_syntax_ok sample_parts sample_lower sample_not_listed)
  have n: "network (answering (Obj [(''Status'', Num 3)]))
      (dns_request (domain_part ''user@example.com'') ''MX'') =
      Fulfilled (Response (Some (Obj [(''Status'', Num 3)])))"
    by (simp add: answering_def)
  have a: "prop_Answer (Obj [(''Status'', Num 3)]) = Inr Undefined"
    by (simp add: own_property_def)
  then have "prop_Answer (Obj [(''Status'', Num 3)]) = Inr Undefined \<or>
      prop_Answer (Obj [(''Status'', Num 3)]) = Inr (Arr [])"
    by blast
  from empty_mx_answer_gives_no_mx [OF g n this, of "[]"] a
  show ?thesis by (simp add: sample_parts)
qed

text \<open>
  C7. Every result of \<^verbatim>\<open>verifyEmail\<close> is one of the seven pairs of status and reason
  of the table; the promise is never rejected and no other pair is produced.
\<close>

theorem verifyEmail_result_in_table:
  "\<exists>r. fst (verifyEmail e email sent) = Inr r \<and> (status r, reason r) \<in> set result_table"
  by (simp add: verifyEmail_eq result_table_def split: sum.split)

theorem verifyEmail_result_in_table_witness:
  "\<exists>r. fst (verifyEmail (failing TimedOut) ''user@example.com'' []) = Inr r \<and>
     (status r, reason r) \<in> set result_table"
  using verifyEmail_result_in_table [of "failing TimedOut" "''user@example.com''" "[]"]
  by simp

text \<open>
  C8. A fault raised while the DNS checks run (they raise only when the MX lookup
  rejects: its request is rejected, the body is not JSON, or reading \<^verbatim>\<open>Answer\<close> of
  the body throws) is caught by \<^verbatim>\<open>verifyEmail\<close> itself and reported as the ordinary
  verdict risky/dns_timeout, not as an outcome of its own; \<^verbatim>\<open>verifyEmail\<close> never
  rejects on a string, and no fault becomes valid/dns_verified. The address is one the
  checks are made for.
\<close>

theorem dns_faults_reported_as_dns_timeout:
  assumes "spec_syntax_ok email"
    and "toLowerCase (domain_part email) \<notin> DISPOSABLE_DOMAINS"
    and "toLowerCase (local_part email) \<notin> ROLE_BASED_PREFIXES"
  shows "(\<exists>r. fst (verifyEmail e email sent) = Inr r) \<and>
         (\<forall>err. fst (dns_checks e (domain_part email) sent) = Inl err
            \<longrightarrow> mx_lookup e (domain_part email) = Inl err \<and>
                fst (verifyEmail e email sent) =
                  Inr \<lparr>status = ''risky'', reason = ''dns_timeout''\<rparr>)"
proof -
  have "\<exists>r. fst (verifyEmail e email sent) = Inr r"
    by (simp add: verifyEmail_eq split: sum.split)
  moreover have "\<forall>err. fst (dns_checks e (domain_part email) sent) = Inl err
      \<longrightarrow> mx_lookup e (domain_part email) = Inl err \<and>
          fst (verifyEmail e email sent) = Inr \<lparr>status = ''risky'', reason = ''dns_timeout''\<rparr>"
    using assms by (simp add: dns_checks_fault verifyEmail_eq)
  ultimately show ?thesis by blast
qed

theorem dns_faults_reported_as_dns_timeout_witness:
  "fst (dns_checks (answering Null) ''example.com'' []) = Inl (Error ''DNS lookup failed'') \<and>
   fst (verifyEmail (answering Null) ''user@example.com'' []) =
     Inr \<lparr>status = ''risky'', reason = ''dns_timeout''\<rparr>"
proof -
  have g: "spec_syntax_ok ''user@example.com''"
    "toLowerCase (domain_part ''user@example.com'') \<notin> DISPOSABLE_DOMAINS"
    "toLowerCase (local_part ''user@example.com'') \<notin> ROLE_BASED_PREFIXES"
    by (simp_all add: sample_syntax_ok sample_parts sample_lower sample_not_listed)
  have "mx_lookup (answering Null) ''example.com'' = Inl (Error ''DNS lookup failed'')"
    by (simp add: mx_lookup_eq answering_def)
  then have f: "fst (dns_checks (answering Null) ''example.com'' []) =
      Inl (Error ''DNS lookup failed'')"
    by (simp add: dns_checks_eq)
  with dns_faults_reported_as_dns_timeout [OF g, of "answering Null" "[]"]
  show ?thesis by (simp add: sample_parts)
qed

theorem malformed_answer_counterexample:
  "fst (verifyEmail (answering (Obj [(''Answer'', Num 5)])) ''user@example.com'' []) =
     Inr \<lparr>status = ''valid'', reason = ''dns_verified''\<rparr> \<and>
   fst (verifyEmail (answering Null) ''user@example.com'' []) =
     Inr \<lparr>status = ''risky'', reason = ''dns_timeout''\<rparr>"
proof -
  have "mx_lookup (answering (Obj [(''Answer'', Num 5)])) ''example.com'' = Inr (Num 5)"
    by (simp add: mx_lookup_eq answering_def own_property_def js_or_def)
  moreover have "\<not> no_records (Num 5)"
    by (simp add: no_records_def)
  ultimately have "fst (verifyEmail (answering (Obj [(''Answer'', Num 5)])) ''user@example.com'' []) =
      Inr \<lparr>status = ''valid'', reason = ''dns_verified''\<rparr>"
    by (simp add: sample_verifyEmail)
  moreover have "mx_lookup (answering Null) ''example.com'' = Inl (Error ''DNS lookup failed'')"
    by (simp add: mx_lookup_eq answering_def)
  then have "fst (verifyEmail (answering Null) ''user@example.com'' []) =
      Inr \<lparr>status = ''risky'', reason = ''dns_timeout''\<rparr>"
    by (simp add: sample_verifyEmail_fails)
  ultimately show ?thesis by blast
qed

text \<open>
  C9. Neither DNS request carries a timeout: \<^verbatim>\<open>fetch\<close> is called with headers only, so
  a request is bounded by the runtime alone. When the runtime rejects the request, for a
  timeout or a network failure alike, the MX lookup throws \<^verbatim>\<open>DNS lookup failed\<close> and the
  A lookup resolves to \<^verbatim>\<open>false\<close>. There is no retry: each lookup issues exactly one
  request, and a verification issues nothing, or one MX request, or one MX request and
  then one A request.
\<close>

theorem dns_requests_single_without_timeout:
  "signal (dns_request d t) = None \<and>
   snd (getMXRecords e d sent) = sent @ [dns_request d ''MX''] \<and>
   snd (hasARecords e d sent) = sent @ [dns_request d ''A''] \<and>
   (network e (dns_request d ''MX'') = Rejected f
      \<longrightarrow> fst (getMXRecords e d sent) = Inl (Error ''DNS lookup failed'')) \<and>
   (network e (dns_request d ''A'') = Rejected f
      \<longrightarrow> fst (hasARecords e d sent) = Inr (Bool False)) \<and>
   (snd (verifyEmail e email sent) = sent \<or>
    snd (verifyEmail e email sent) = sent @ [dns_request (domain_part email) ''MX''] \<or>
    snd (verifyEmail e email sent) =
      sent @ [dns_request (domain_part email) ''MX'', dns_request (domain_part email) ''A''])"
proof -
  have "signal (dns_request d t) = None"
    by (simp add: dns_request_def)
  moreover have "snd (getMXRecords e d sent) = sent @ [dns_request d ''MX'']"
    by (simp add: getMXRecords_eq)
  moreover have "snd (hasARecords e d sent) = sent @ [dns_request d ''A'']"
    by (simp add: hasARecords_eq)
  moreover have "network e (dns_request d ''MX'') = Rejected f
      \<longrightarrow> fst (getMXRecords e d sent) = Inl (Error ''DNS lookup failed'')"
    by (simp add: getMXRecords_eq mx_lookup_eq)
  moreover have "network e (dns_request d ''A'') = Rejected f
      \<longrightarrow> fst (hasARecords e d sent) = Inr (Bool False)"
    by (simp add: hasARecords_eq a_lookup_def)
  moreover have "snd (verifyEmail e email sent) = sent \<or>
      snd (verifyEmail e email sent) = sent @ [dns_request (domain_part email) ''MX''] \<or>
      snd (verifyEmail e email sent) =
        sent @ [dns_request (domain_part email) ''MX'', dns_request (domain_part email) ''A'']"
    by (simp add: verifyEmail_eq split: sum.split)
  ultimately show ?thesis by blast
qed

theorem dns_requests_single_without_timeout_witness:
  "network (failing TimedOut) (dns_request ''example.com'' ''MX'') = Rejected TimedOut \<and>
   fst (getMXRecords (failing TimedOut) ''example.com'' []) = Inl (Error ''DNS lookup failed'') \<and>
   fst (hasARecords (failing TimedOut) ''example.com'' []) = Inr (Bool False) \<and>
   snd (getMXRecords (failing TimedOut) ''example.com'' []) = [dns_request ''example.com'' ''MX'']"
proof -
  have n: "network (failing TimedOut) (dns_request ''example.com'' ''MX'') = Rejected TimedOut"
    "network (failing TimedOut) (dns_request ''example.com'' ''A'') = Rejected TimedOut"
    by (simp_all add: failing_def)
  with dns_requests_single_without_timeout
    [of "''example.com''" "''MX''" "failing TimedOut" "[]" TimedOut "''user@example.com''"]
  show ?thesis by simp
qed

theorem request_without_timeout_counterexample:
  "snd (verifyEmail (answering (Obj [(''Answer'', Arr [mx_record])])) ''user@example.com'' []) =
     [dns_request ''example.com'' ''MX'', dns_request ''example.com'' ''A''] \<and>
   \<not> list_ex (\<lambda>q. signal q \<noteq> None)
       (snd (verifyEmail (answering (Obj [(''Answer'', Arr [mx_record])])) ''user@example.com'' []))"
proof -
  have "mx_lookup (answering (Obj [(''Answer'', Arr [mx_record])])) ''example.com'' =
      Inr (Arr [mx_record])"
    by (simp add: mx_lookup_eq answering_def own_property_def js_or_def)
  moreover have "\<not> no_records (Arr [mx_record])"
    by (simp add: no_records_def)
  ultimately have "snd (verifyEmail (answering (Obj [(''Answer'', Arr [mx_record])]))
      ''user@example.com'' []) = [dns_request ''example.com'' ''MX'', dns_request ''example.com'' ''A'']"
    by (simp add: sample_verifyEmail)
  then show ?thesis by (simp add: dns_request_def)
qed

text \<open>
  C10. For every string the address pattern accepts, splitting on \<^verbatim>\<open>@\<close> gives exactly
  two parts, both non-empty: the local part and the domain are defined and truthy, so
  the second bad_syntax guard (\<^verbatim>\<open>!local || !domain\<close>) is never taken.
\<close>

theorem second_guard_unreachable:
  assumes "test EMAIL_REGEX email"
  shows "\<exists>local domain.
           split_on CHR ''@'' email = [local, domain] \<and>
           nth_opt (split_on CHR ''@'' email) 0 = Some local \<and>
           nth_opt (split_on CHR ''@'' email) 1 = Some domain \<and>
           local \<noteq> [] \<and> domain \<noteq> []"
proof -
  from assms have ok: "spec_syntax_ok email" by (simp only: EMAIL_REGEX_syntax_ok)
  show ?thesis
    using syntax_ok_split [OF ok] by simp
qed

theorem second_guard_unreachable_witness:
  "test EMAIL_REGEX ''user@example.com'' \<and>
   split_on CHR ''@'' ''user@example.com'' = [''user'', ''example.com'']"
proof -
  have t: "test EMAIL_REGEX ''user@example.com''"
    by (simp only: EMAIL_REGEX_syntax_ok sample_syntax_ok)
  from second_guard_unreachable [OF t] t show ?thesis by simp
qed

end
